theory Spec2Isabelle
  imports Main "HOL-Library.Char_ord"
begin

section \<open>Strings of the program\<close>

text \<open>
  The program of \<^verbatim>\<open>cloudstorage2bq/__main__.py\<close> works on Python \<^verbatim>\<open>str\<close> values. A
  character of the model is a code point below 256 (the type \<^typ>\<open>char\<close>), so the strings
  of the model are the Python strings over Latin-1, one \<^typ>\<open>char\<close> for each code point.
\<close>

text \<open>
  \<^verbatim>\<open>str.rfind(c)\<close>: the highest index at which \<^verbatim>\<open>c\<close> occurs, \<^verbatim>\<open>-1\<close> when it does not
  occur. The scan carries the index of the current character and the last hit.
\<close>

primrec rfind_aux :: "char \<Rightarrow> string \<Rightarrow> int \<Rightarrow> int \<Rightarrow> int" where
  "rfind_aux c [] i acc = acc"
| "rfind_aux c (x # xs) i acc = rfind_aux c xs (i + 1) (if x = c then i else acc)"

definition rfind :: "char \<Rightarrow> string \<Rightarrow> int" where
  "rfind c p = rfind_aux c p 0 (- 1)"

text \<open>
  \<^verbatim>\<open>os.path.basename\<close> (posixpath):
  \<^verbatim>\<open>i = p.rfind('/') + 1; return p[i:]\<close>
\<close>

definition basename :: "string \<Rightarrow> string" where
  "basename p = (let i = rfind CHR ''/'' p + 1 in drop (nat i) p)"

text \<open>
  \<^verbatim>\<open>os.path.splitext\<close> (posixpath, through \<^verbatim>\<open>genericpath._splitext\<close> with separator
  \<^verbatim>\<open>/\<close>, no alternative separator and extension separator \<^verbatim>\<open>.\<close>):
  \<^verbatim>\<open>
  sepIndex = p.rfind(sep)
  dotIndex = p.rfind(extsep)
  if dotIndex > sepIndex:
      # skip all leading dots
      filenameIndex = sepIndex + 1
      while filenameIndex < dotIndex:
          if p[filenameIndex:filenameIndex+1] != extsep:
              return p[:dotIndex], p[dotIndex:]
          filenameIndex += 1
  return p, p[:0]
  \<close>
  The indices of the loop are not negative (\<^verbatim>\<open>sepIndex\<close> is at least \<^verbatim>\<open>-1\<close>), so the loop
  is written over natural numbers.
\<close>

function skip_leading_dots :: "string \<Rightarrow> nat \<Rightarrow> nat \<Rightarrow> string \<times> string" where
  "skip_leading_dots p dotIndex filenameIndex =
     (if filenameIndex < dotIndex then
        (if take 1 (drop filenameIndex p) \<noteq> ''.'' then (take dotIndex p, drop dotIndex p)
         else skip_leading_dots p dotIndex (filenameIndex + 1))
      else (p, []))"
  by pat_completeness auto
termination
  by (relation "measure (\<lambda>(p, dotIndex, filenameIndex). dotIndex - filenameIndex)") auto

declare skip_leading_dots.simps [simp del]

definition splitext :: "string \<Rightarrow> string \<times> string" where
  "splitext p =
     (let sepIndex = rfind CHR ''/'' p;
          dotIndex = rfind CHR ''.'' p
      in if dotIndex > sepIndex then skip_leading_dots p (nat dotIndex) (nat (sepIndex + 1))
         else (p, []))"

text \<open>\<^verbatim>\<open>str.rstrip("/")\<close>: every trailing \<^verbatim>\<open>/\<close> is removed.\<close>

definition rstrip_slash :: "string \<Rightarrow> string" where
  "rstrip_slash s = rev (dropWhile (\<lambda>c. c = CHR ''/'') (rev s))"

text \<open>
  \<^verbatim>\<open>str.isalpha()\<close> on one character: the letters of Unicode. Below 256 these are the
  ASCII letters, the two ordinal indicators, the micro sign and the accented Latin-1
  letters (the multiplication and division signs 0xD7 and 0xF7 are not letters).
\<close>

definition isalpha :: "char \<Rightarrow> bool" where
  "isalpha c \<longleftrightarrow>
     (CHR ''a'' \<le> c \<and> c \<le> CHR ''z'') \<or> (CHR ''A'' \<le> c \<and> c \<le> CHR ''Z'') \<or>
     c = CHR 0xAA \<or> c = CHR 0xB5 \<or> c = CHR 0xBA \<or>
     (CHR 0xC0 \<le> c \<and> c \<le> CHR 0xD6) \<or> (CHR 0xD8 \<le> c \<and> c \<le> CHR 0xF6) \<or>
     (CHR 0xF8 \<le> c \<and> c \<le> CHR 0xFF)"

section \<open>Identifier Sanitizer\<close>

text \<open>
  The character class of the pattern \<^verbatim>\<open>[^a-zA-Z0-9_]\<close> is the complement of
  \<open>ident_char\<close>. The pattern matches one character at a time, so
  \<^verbatim>\<open>re.sub(r"[^a-zA-Z0-9_]", "_", s)\<close> replaces each matching character by an underscore
  and copies the others.
\<close>

definition ident_char :: "char \<Rightarrow> bool" where
  "ident_char c \<longleftrightarrow>
     (CHR ''a'' \<le> c \<and> c \<le> CHR ''z'') \<or> (CHR ''A'' \<le> c \<and> c \<le> CHR ''Z'') \<or>
     (CHR ''0'' \<le> c \<and> c \<le> CHR ''9'') \<or> c = CHR ''_''"

primrec re_sub_ident :: "string \<Rightarrow> string" where
  "re_sub_ident [] = []"
| "re_sub_ident (c # cs) = (if ident_char c then c else CHR ''_'') # re_sub_ident cs"


section \<open>Failures, the warehouse and the object store\<close>

text \<open>
  The exceptions that can leave the program: \<^verbatim>\<open>NotFound\<close> of the client libraries, any
  other failure of a client call (permission, quota, network), the exception that
  \<^verbatim>\<open>load_job.result()\<close> raises for a job that finished with an error payload, the
  \<^verbatim>\<open>IndexError\<close> of an index out of range and the \<^verbatim>\<open>AssertionError\<close> of a failed
  \<^verbatim>\<open>assert\<close> with its message.
\<close>

datatype error = NotFound | ApiError string | JobError string | IndexError | AssertionError string

text \<open>
  A dataset object: its reference (the dataset identifier) and the properties set on it.
  \<^verbatim>\<open>bigquery.Dataset(dataset_ref)\<close> sets none, so the service's defaults apply.
\<close>

datatype dataset = Dataset (dataset_ref: string) (properties: "(string \<times> string) list")

definition new_dataset :: "string \<Rightarrow> dataset" where
  "new_dataset ref = Dataset ref []"

text \<open>
  A load job handle. \<open>job_id\<close> identifies the handle, \<open>done_from\<close> is the number of
  \<^verbatim>\<open>done()\<close> polls of the run from which the job reports completion (\<open>None\<close>: it never
  does), \<open>error_result\<close> is the error payload of a failed job.
\<close>

record job =
  job_id :: nat
  source_uri :: string
  destination :: "string \<times> string"
  done_from :: "nat option"
  error_result :: "string option"

text \<open>
  The client libraries, as the responses they give. A response is the value returned or
  the exception raised. \<open>list_blobs\<close> answers a bucket, a prefix and an optional delimiter
  with the object names and the common prefixes of the listing; \<open>load_table_from_uri\<close>
  answers a source, a dataset and a table with the fate of the job it starts (its
  \<open>done_from\<close> and \<open>error_result\<close>).
\<close>

record client =
  get_dataset :: "string \<Rightarrow> error + dataset"
  create_dataset :: "dataset \<Rightarrow> error + dataset"
  list_tables :: "string \<Rightarrow> error + string list"
  get_bucket :: "string \<Rightarrow> error option"
  list_blobs :: "string \<Rightarrow> string \<Rightarrow> char option \<Rightarrow> error + string list \<times> string list"
  load_table_from_uri :: "string \<Rightarrow> string \<Rightarrow> string \<Rightarrow> error + nat option \<times> string option"

text \<open>What the program does that can be seen from outside: client calls and log lines.\<close>

datatype api_call =
    Api_get_dataset string
  | Api_create_dataset dataset
  | Api_list_tables string
  | Api_get_bucket string
  | Api_list_blobs string string "char option"
  | Api_load_table_from_uri string string string
  | Api_done nat bool
  | Api_result nat

datatype message =
    Got_dataset dataset
  | Processing_file string
  | Table_name string
  | Table_exists_skipping string
  | Started_load_job string string string
  | Error_loading string "string \<times> string"
  | Error_payload string
  | Completed_job nat string "string \<times> string"

datatype event = Call api_call | Info message | Error message

text \<open>
  The state of a run: the events so far, the list \<^verbatim>\<open>jobs\<close> of
  \<^verbatim>\<open>load_prefix_to_dataset\<close> and the number of \<^verbatim>\<open>done()\<close> polls made.
\<close>

record run_state =
  trace :: "event list"
  jobs :: "job list"
  clock :: nat

definition emit :: "event \<Rightarrow> run_state \<Rightarrow> run_state" where
  "emit e s = s\<lparr>trace := trace s @ [e]\<rparr>"

text \<open>
  How a call of the program ends: it returns, it raises, or (the model's fuel for the
  unbounded \<^verbatim>\<open>while\<close> loop being used up) it is still polling.
\<close>

datatype outcome = Returned | Raised error | Polling

section \<open>Object Enumerator\<close>

text \<open>
  \<^verbatim>\<open>list_files\<close>: the bucket is fetched, its objects under the prefix are listed and each
  name becomes \<^verbatim>\<open>gs://{bucket_name}/{blob.name}\<close>.
\<close>

definition list_files ::
  "client \<Rightarrow> string \<Rightarrow> string \<Rightarrow> char option \<Rightarrow> run_state \<Rightarrow> (error + string list) \<times> run_state" where
  "list_files c bucket_name prefix delimeter s =
     (let s1 = emit (Call (Api_get_bucket bucket_name)) s in
      case get_bucket c bucket_name of
        Some e \<Rightarrow> (Inl e, s1)
      | None \<Rightarrow>
          (let s2 = emit (Call (Api_list_blobs bucket_name prefix delimeter)) s1 in
           case list_blobs c bucket_name prefix delimeter of
             Inl e \<Rightarrow> (Inl e, s2)
           | Inr (names, prefixes) \<Rightarrow>
               (Inr (map (\<lambda>name. ''gs://'' @ bucket_name @ ''/'' @ name) names), s2)))"

section \<open>Dataset Ensurer\<close>

text \<open>
  Lines 56 to 64 of \<^verbatim>\<open>load_prefix_to_dataset\<close>:
  \<^verbatim>\<open>
  try:
      dataset = client.get_dataset(dataset_ref)
      logger.info(f"got dataset {dataset}")
  except NotFound:
      dataset = bigquery.Dataset(dataset_ref)
      dataset = client.create_dataset(dataset)
  \<close>
  The handler catches \<^verbatim>\<open>NotFound\<close> only; \<^verbatim>\<open>create_dataset\<close> is called outside the
  \<^verbatim>\<open>try\<close>, so its failure leaves the function.
\<close>

definition ensure_dataset ::
  "client \<Rightarrow> string \<Rightarrow> run_state \<Rightarrow> (error + dataset) \<times> run_state" where
  "ensure_dataset c ref s =
     (let s1 = emit (Call (Api_get_dataset ref)) s in
      case get_dataset c ref of
        Inr dataset \<Rightarrow> (Inr dataset, emit (Info (Got_dataset dataset)) s1)
      | Inl e \<Rightarrow>
          (if e = NotFound then
             (let dataset = new_dataset ref in
              (create_dataset c dataset, emit (Call (Api_create_dataset dataset)) s1))
           else (Inl e, s1)))"

section \<open>Load Orchestrator: submission\<close>

text \<open>
  Line 83: \<^verbatim>\<open>assert table_name[0].isalpha(), "table_name must start with a letter"\<close>.
  The index is evaluated first and raises \<^verbatim>\<open>IndexError\<close> on the empty string; otherwise
  the assertion fails when the character is not a letter.
\<close>

definition assert_leading_letter :: "string \<Rightarrow> error + unit" where
  "assert_leading_letter table_name =
     (case table_name of
        [] \<Rightarrow> Inl IndexError
      | c # _ \<Rightarrow>
          (if isalpha c then Inr ()
           else Inl (AssertionError ''table_name must start with a letter'')))"

text \<open>
  Lines 79 to 84 without the log line: the table identifier of a file, or the exception.
\<close>

definition derive_table_name :: "string \<Rightarrow> string \<Rightarrow> error + string" where
  "derive_table_name table_name_prefix file =
     (let table_name = fst (splitext (basename file));
          table_name = re_sub_ident table_name
      in case assert_leading_letter table_name of
           Inl e \<Rightarrow> Inl e
         | Inr _ \<Rightarrow> Inr (table_name_prefix @ table_name))"

text \<open>
  The body of the \<^verbatim>\<open>for file in files\<close> loop (lines 77 to 100). The result is the
  exception that leaves the loop, if any, and the state. A job started gets the number of
  jobs started before it in this call as its \<open>job_id\<close>.
\<close>

definition process_file ::
  "client \<Rightarrow> string \<Rightarrow> string \<Rightarrow> string list \<Rightarrow> string \<Rightarrow> run_state \<Rightarrow> error option \<times> run_state" where
  "process_file c dataset_name table_name_prefix all_tables_in_dataset file s =
     (let s1 = emit (Info (Processing_file file)) s;
          table_name = fst (splitext (basename file));
          table_name = re_sub_ident table_name;
          s2 = emit (Info (Table_name table_name)) s1
      in case assert_leading_letter table_name of
           Inl e \<Rightarrow> (Some e, s2)
         | Inr _ \<Rightarrow>
             (let table_name = table_name_prefix @ table_name in
              if table_name \<in> set all_tables_in_dataset then
                (None, emit (Info (Table_exists_skipping table_name)) s2)
              else
                (let s3 = emit (Call (Api_load_table_from_uri file dataset_name table_name)) s2 in
                 case load_table_from_uri c file dataset_name table_name of
                   Inl e \<Rightarrow> (Some e, s3)
                 | Inr (d, r) \<Rightarrow>
                     (let load_job = \<lparr>job_id = length (jobs s3), source_uri = file,
                            destination = (dataset_name, table_name),
                            done_from = d, error_result = r\<rparr>;
                          s4 = s3\<lparr>jobs := jobs s3 @ [load_job]\<rparr>
                      in (None, emit (Info (Started_load_job file dataset_name table_name)) s4)))))"

fun submit_loop ::
  "client \<Rightarrow> string \<Rightarrow> string \<Rightarrow> string list \<Rightarrow> string list \<Rightarrow> run_state \<Rightarrow> error option \<times> run_state" where
  "submit_loop c dataset_name table_name_prefix all_tables [] s = (None, s)"
| "submit_loop c dataset_name table_name_prefix all_tables (file # files) s =
     (case process_file c dataset_name table_name_prefix all_tables file s of
        (Some e, s') \<Rightarrow> (Some e, s')
      | (None, s') \<Rightarrow> submit_loop c dataset_name table_name_prefix all_tables files s')"

section \<open>Load Orchestrator: polling\<close>

text \<open>\<^verbatim>\<open>load_job.done()\<close> at a given number of earlier polls.\<close>

definition job_done :: "job \<Rightarrow> nat \<Rightarrow> bool" where
  "job_done load_job t = (case done_from load_job of None \<Rightarrow> False | Some d \<Rightarrow> d \<le> t)"

text \<open>
  \<^verbatim>\<open>load_job.result()\<close> of the warehouse client, for a job that reported completion: it
  returns for a job that succeeded and raises the job's error for a job that finished
  with an error payload.
\<close>

definition job_result :: "job \<Rightarrow> error option" where
  "job_result load_job =
     (case error_result load_job of None \<Rightarrow> None | Some payload \<Rightarrow> Some (JobError payload))"

text \<open>
  Lines 109 to 122, for a job that reported completion: the result is retrieved; when
  that call returns, one outcome is logged by the job's \<^verbatim>\<open>error_result\<close> and
  \<^verbatim>\<open>jobs.remove(load_job)\<close> deletes the first element equal to the job. Job objects are
  equal when they are the same object; the handles of a run differ in their \<open>job_id\<close>.
  When \<^verbatim>\<open>load_job.result()\<close> raises, the exception leaves the loops and the function.
\<close>

definition complete_job :: "job \<Rightarrow> run_state \<Rightarrow> error option \<times> run_state" where
  "complete_job load_job s =
     (let s1 = emit (Call (Api_result (job_id load_job))) s
      in case job_result load_job of
           Some e \<Rightarrow> (Some e, s1)
         | None \<Rightarrow>
             (let s2 = (case error_result load_job of
                          Some payload \<Rightarrow>
                            emit (Error (Error_payload payload))
                              (emit (Error (Error_loading (source_uri load_job)
                                 (destination load_job))) s1)
                        | None \<Rightarrow>
                            emit (Info (Completed_job (job_id load_job) (source_uri load_job)
                              (destination load_job))) s1)
              in (None, s2\<lparr>jobs := remove1 load_job (jobs s2)\<rparr>)))"

text \<open>
  A call of \<^verbatim>\<open>load_job.done()\<close>: its answer and the state after it (the call is seen
  in the trace and counted by the clock).
\<close>

definition poll_done :: "job \<Rightarrow> run_state \<Rightarrow> bool \<times> run_state" where
  "poll_done load_job s =
     (let d = job_done load_job (clock s)
      in (d, (emit (Call (Api_done (job_id load_job) d)) s)\<lparr>clock := clock s + 1\<rparr>))"

text \<open>
  The \<^verbatim>\<open>for load_job in jobs\<close> loop of lines 104 to 122. Python's list iterator keeps an
  index into the list it walks: each step yields \<^verbatim>\<open>jobs[i]\<close> and moves to \<^verbatim>\<open>i + 1\<close> while
  \<^verbatim>\<open>i < len(jobs)\<close>, also when the body has removed an element meanwhile.
\<close>

function poll_scan :: "nat \<Rightarrow> run_state \<Rightarrow> error option \<times> run_state" where
  "poll_scan i s =
     (if i < length (jobs s) then
        (let load_job = jobs s ! i;
             (d, s1) = poll_done load_job s
         in if \<not> d then poll_scan (i + 1) s1
            else (case complete_job load_job s1 of
                    (Some e, s2) \<Rightarrow> (Some e, s2)
                  | (None, s2) \<Rightarrow> poll_scan (i + 1) s2))
      else (None, s))"
  by pat_completeness auto
termination
proof (relation "measure (\<lambda>(i, s). length (jobs s) - i)")
  show "wf (measure (\<lambda>(i, s). length (jobs s) - i))"
    by simp
next
  fix i :: nat and s s1 :: run_state and load_job p d
  assume "i < length (jobs s)" and "p = poll_done load_job s" and "(d, s1) = p"
  then show "((i + 1, s1), i, s) \<in> measure (\<lambda>(i, s). length (jobs s) - i)"
    by (auto simp add: poll_done_def emit_def Let_def)
next
  fix i :: nat and s s1 s2 :: run_state and load_job p d r
  assume a: "i < length (jobs s)" "load_job = jobs s ! i"
    "p = poll_done load_job s" "(d, s1) = p" "(r, s2) = complete_job load_job s1" "r = None"
  from a(3,4) have "jobs s1 = jobs s"
    by (auto simp add: poll_done_def emit_def Let_def)
  with a(5,6) have "jobs s2 = remove1 load_job (jobs s)"
    by (auto simp add: complete_job_def emit_def Let_def split: option.splits)
  with a(1,2) show "((i + 1, s2), i, s) \<in> measure (\<lambda>(i, s). length (jobs s) - i)"
    by (auto simp add: length_remove1)
qed

declare poll_scan.simps [simp del]

text \<open>
  The \<^verbatim>\<open>while not done\<close> loop of lines 102 to 125. The first argument bounds the number
  of iterations the model follows; the loop of the program has no bound.
\<close>

fun poll_loop :: "nat \<Rightarrow> run_state \<Rightarrow> outcome \<times> run_state" where
  "poll_loop 0 s = (Polling, s)"
| "poll_loop (Suc n) s =
     (case poll_scan 0 s of
        (Some e, s') \<Rightarrow> (Raised e, s')
      | (None, s') \<Rightarrow> if length (jobs s') = 0 then (Returned, s') else poll_loop n s')"

section \<open>Load Orchestrator and Prefix Walker\<close>

definition load_prefix_to_dataset ::
  "client \<Rightarrow> nat \<Rightarrow> string \<Rightarrow> string \<Rightarrow> string \<Rightarrow> string \<Rightarrow> run_state \<Rightarrow> outcome \<times> run_state" where
  "load_prefix_to_dataset c fuel bucket_name bucket_prefix dataset_name table_name_prefix s =
     (case ensure_dataset c dataset_name (s\<lparr>jobs := []\<rparr>) of
        (Inl e, s1) \<Rightarrow> (Raised e, s1)
      | (Inr dataset, s1) \<Rightarrow>
          (let s2 = emit (Call (Api_list_tables dataset_name)) s1 in
           case list_tables c dataset_name of
             Inl e \<Rightarrow> (Raised e, s2)
           | Inr all_tables_in_dataset \<Rightarrow>
               (case list_files c bucket_name bucket_prefix None s2 of
                  (Inl e, s3) \<Rightarrow> (Raised e, s3)
                | (Inr files, s3) \<Rightarrow>
                    (case submit_loop c dataset_name table_name_prefix
                            all_tables_in_dataset files s3 of
                       (Some e, s4) \<Rightarrow> (Raised e, s4)
                     | (None, s4) \<Rightarrow> poll_loop fuel s4))))"

text \<open>
  The loop of lines 143 to 153 over \<^verbatim>\<open>blobs.prefixes\<close>, in the order the loop takes them.
\<close>

fun walk_prefixes ::
  "client \<Rightarrow> nat \<Rightarrow> string \<Rightarrow> string \<Rightarrow> string list \<Rightarrow> run_state \<Rightarrow> outcome \<times> run_state" where
  "walk_prefixes c fuel bucket_name table_name_prefix [] s = (Returned, s)"
| "walk_prefixes c fuel bucket_name table_name_prefix (prefix # rest) s =
     (let prefix = rstrip_slash prefix;
          dataset_name = re_sub_ident prefix
      in case load_prefix_to_dataset c fuel bucket_name prefix dataset_name table_name_prefix s of
           (Returned, s') \<Rightarrow> walk_prefixes c fuel bucket_name table_name_prefix rest s'
         | r \<Rightarrow> r)"

definition load_all_datasets ::
  "client \<Rightarrow> nat \<Rightarrow> string \<Rightarrow> string \<Rightarrow> string \<Rightarrow> run_state \<Rightarrow> outcome \<times> run_state" where
  "load_all_datasets c fuel bucket_name bucket_prefix table_name_prefix s =
     (let s1 = emit (Call (Api_get_bucket bucket_name)) s in
      case get_bucket c bucket_name of
        Some e \<Rightarrow> (Raised e, s1)
      | None \<Rightarrow>
          (let s2 = emit (Call (Api_list_blobs bucket_name bucket_prefix (Some CHR ''/''))) s1 in
           case list_blobs c bucket_name bucket_prefix (Some CHR ''/'') of
             Inl e \<Rightarrow> (Raised e, s2)
           | Inr (names, prefixes) \<Rightarrow>
               walk_prefixes c fuel bucket_name table_name_prefix prefixes s2))"

section \<open>Observations and example environments\<close>

text \<open>The events a scan of the job list adds to the trace, and the start of a run.\<close>

definition scan_events :: "nat \<Rightarrow> run_state \<Rightarrow> event list" where
  "scan_events i s = drop (length (trace s)) (trace (snd (poll_scan i s)))"

text \<open>The jobs that a list of events shows reporting completion, by \<open>job_id\<close>.\<close>

fun completed :: "event list \<Rightarrow> nat list" where
  "completed [] = []"
| "completed (Call (Api_done k True) # es) = k # completed es"
| "completed (e # es) = completed es"

text \<open>
  What the loop body does with one object, read off the object alone: the exception it
  raises, if any (from the leading-letter check, or from the load call for an identifier
  outside the snapshot), and whether it starts a load job when nothing is raised.
\<close>

definition file_error :: "client \<Rightarrow> string \<Rightarrow> string \<Rightarrow> string list \<Rightarrow> string \<Rightarrow> error option" where
  "file_error c ds tp snap f =
     (case derive_table_name tp f of
        Inl e \<Rightarrow> Some e
      | Inr t \<Rightarrow>
          if t \<in> set snap then None
          else (case load_table_from_uri c f ds t of Inl e \<Rightarrow> Some e | Inr fate \<Rightarrow> None))"

definition to_load :: "string \<Rightarrow> string list \<Rightarrow> string \<Rightarrow> bool" where
  "to_load tp snap f =
     (case derive_table_name tp f of Inl e \<Rightarrow> False | Inr t \<Rightarrow> t \<notin> set snap)"

text \<open>The exception of the first object that raises one, in listing order.\<close>

fun first_error :: "client \<Rightarrow> string \<Rightarrow> string \<Rightarrow> string list \<Rightarrow> string list \<Rightarrow> error option" where
  "first_error c ds tp snap [] = None"
| "first_error c ds tp snap (f # fs) =
     (case file_error c ds tp snap f of
        Some e \<Rightarrow> Some e
      | None \<Rightarrow> first_error c ds tp snap fs)"

text \<open>
  What a run of the submission loop over \<open>files\<close> adds: events \<open>es\<close> and jobs \<open>js\<close>,
  leaving the clock alone. Every load is for a table outside the catalog snapshot, the
  loop ends with the first exception, and the jobs are those of the objects to load that
  come before the first object that raises.
\<close>

definition loop_adds ::
  "client \<Rightarrow> string \<Rightarrow> string \<Rightarrow> string list \<Rightarrow> string list \<Rightarrow> error option \<Rightarrow>
     run_state \<Rightarrow> run_state \<Rightarrow> event list \<Rightarrow> job list \<Rightarrow> bool" where
  "loop_adds c ds tp snap files r s s' es js \<longleftrightarrow>
     trace s' = trace s @ es \<and> jobs s' = jobs s @ js \<and> clock s' = clock s \<and>
     (\<forall>f d t. Call (Api_load_table_from_uri f d t) \<in> set es \<longrightarrow> t \<notin> set snap) \<and>
     (\<forall>j \<in> set js. destination j = (ds, snd (destination j)) \<and>
         snd (destination j) \<notin> set snap \<and> source_uri j \<in> set files \<and>
         derive_table_name tp (source_uri j) = Inr (snd (destination j))) \<and>
     map job_id js = [length (jobs s)..<length (jobs s) + length js] \<and>
     r = first_error c ds tp snap files \<and>
     map source_uri js =
       filter (to_load tp snap)
         (takeWhile (\<lambda>f. file_error c ds tp snap f = None) files)"

definition init_state :: run_state where
  "init_state = \<lparr>trace = [], jobs = [], clock = 0\<rparr>"

text \<open>
  An object store holding the given object names in one bucket \<^verbatim>\<open>b\<close>, listed the way a
  flat namespace is: without a delimiter every name under the prefix is an object of the
  listing; with one, a name with the delimiter after the prefix is reported through its
  common prefix (the name up to and including that delimiter) and not as an object.
\<close>

definition store_listing :: "string list \<Rightarrow> string \<Rightarrow> char option \<Rightarrow> string list \<times> string list" where
  "store_listing names prefix delimiter =
     (let under = filter (\<lambda>n. take (length prefix) n = prefix) names;
          rest = (\<lambda>n. drop (length prefix) n)
      in case delimiter of
           None \<Rightarrow> (under, [])
         | Some d \<Rightarrow>
             (filter (\<lambda>n. d \<notin> set (rest n)) under,
              remdups (map (\<lambda>n. prefix @ takeWhile (\<lambda>c. c \<noteq> d) (rest n) @ [d])
                (filter (\<lambda>n. d \<in> set (rest n)) under))))"

text \<open>
  A warehouse without datasets in which every dataset to be made is made, whose table
  listing is the given one and whose load jobs have the given fates, over that store.
\<close>

definition example_client ::
  "string list \<Rightarrow> string list \<Rightarrow> (string \<Rightarrow> nat option \<times> string option) \<Rightarrow> client" where
  "example_client names tables fate =
     \<lparr>get_dataset = (\<lambda>ref. Inl NotFound),
      create_dataset = (\<lambda>dataset. Inr dataset),
      list_tables = (\<lambda>ref. Inr tables),
      get_bucket = (\<lambda>bucket. if bucket = ''b'' then None else Some NotFound),
      list_blobs = (\<lambda>bucket prefix delimiter. Inr (store_listing names prefix delimiter)),
      load_table_from_uri = (\<lambda>file dataset_name table_name. Inr (fate file))\<rparr>"

text \<open>
  Outstanding jobs at the start of polling. In \<open>three_jobs\<close>, two jobs succeed and report
  completion from the first poll on and one finishes with an error payload and reports
  completion from the poll after four others. In \<open>failed_and_stuck\<close>, one job has
  finished with an error payload and one never reports completion.
\<close>

definition three_jobs :: run_state where
  "three_jobs =
     \<lparr>trace = [],
      jobs = [\<lparr>job_id = 0, source_uri = ''gs://b/p/a.parquet'', destination = (''p'', ''a''),
                done_from = Some 0, error_result = None\<rparr>,
              \<lparr>job_id = 1, source_uri = ''gs://b/p/b.parquet'', destination = (''p'', ''b''),
                done_from = Some 0, error_result = None\<rparr>,
              \<lparr>job_id = 2, source_uri = ''gs://b/p/c.parquet'', destination = (''p'', ''c''),
                done_from = Some 4, error_result = Some ''malformed source''\<rparr>],
      clock = 0\<rparr>"

definition failed_and_stuck :: run_state where
  "failed_and_stuck =
     \<lparr>trace = [],
      jobs = [\<lparr>job_id = 0, source_uri = ''gs://b/p/c.parquet'', destination = (''p'', ''c''),
                done_from = Some 0, error_result = Some ''malformed source''\<rparr>,
              \<lparr>job_id = 1, source_uri = ''gs://b/p/d.parquet'', destination = (''p'', ''d''),
                done_from = None, error_result = None\<rparr>],
      clock = 0\<rparr>"

section \<open>Facts about the string functions\<close>

lemma rfind_aux_bounds:
  "acc < i \<Longrightarrow> - 1 \<le> acc \<Longrightarrow>
     - 1 \<le> rfind_aux c xs i acc \<and> rfind_aux c xs i acc < i + int (length xs)"
proof (induction xs arbitrary: i acc)
  case Nil
  then show ?case by simp
next
  case (Cons x xs)
  have "- 1 \<le> rfind_aux c xs (i + 1) (if x = c then i else acc) \<and>
        rfind_aux c xs (i + 1) (if x = c then i else acc) < (i + 1) + int (length xs)"
    using Cons.prems by (intro Cons.IH) auto
  then show ?case by simp
qed

lemma rfind_aux_last:
  "xs \<noteq> [] \<Longrightarrow> acc < i \<Longrightarrow> - 1 \<le> acc \<Longrightarrow>
     (rfind_aux c xs i acc = i + int (length xs) - 1) = (last xs = c)"
proof (induction xs arbitrary: i acc)
  case Nil
  then show ?case by simp
next
  case (Cons x xs)
  show ?case
  proof (cases "xs = []")
    case True
    with Cons.prems show ?thesis by auto
  next
    case False
    have "(rfind_aux c xs (i + 1) (if x = c then i else acc) = (i + 1) + int (length xs) - 1)
            = (last xs = c)"
      using False Cons.prems by (intro Cons.IH) auto
    with False show ?thesis by simp
  qed
qed

lemma rfind_bounds: "- 1 \<le> rfind c p \<and> rfind c p < int (length p)"
  using rfind_aux_bounds [of "- 1" 0 c p] by (simp add: rfind_def)

lemma rfind_last: "p \<noteq> [] \<Longrightarrow> (rfind c p = int (length p) - 1) = (last p = c)"
  using rfind_aux_last [of p "- 1" 0 c] by (simp add: rfind_def)

lemma basename_empty: "basename p = [] \<longleftrightarrow> p = [] \<or> last p = CHR ''/''"
proof (cases "p = []")
  case True
  then show ?thesis by (simp add: basename_def)
next
  case False
  have b: "- 1 \<le> rfind CHR ''/'' p \<and> rfind CHR ''/'' p < int (length p)"
    by (rule rfind_bounds)
  have "basename p = [] \<longleftrightarrow> rfind CHR ''/'' p = int (length p) - 1"
    using b by (auto simp add: basename_def Let_def)
  with False show ?thesis by (simp add: rfind_last)
qed

lemma skip_leading_dots_root:
  "dotIndex < length p \<Longrightarrow> fst (skip_leading_dots p dotIndex k) \<noteq> []"
proof (induction p dotIndex k rule: skip_leading_dots.induct)
  case (1 p dotIndex filenameIndex)
  show ?case
  proof (cases "filenameIndex < dotIndex")
    case True
    with 1 show ?thesis
      by (subst skip_leading_dots.simps) auto
  next
    case False
    with 1 show ?thesis
      by (subst skip_leading_dots.simps) auto
  qed
qed

lemma splitext_root_empty: "fst (splitext p) = [] \<longleftrightarrow> p = []"
proof (cases "p = []")
  case True
  then show ?thesis by (simp add: splitext_def rfind_def)
next
  case False
  have b: "- 1 \<le> rfind CHR ''.'' p \<and> rfind CHR ''.'' p < int (length p)"
    by (rule rfind_bounds)
  have s: "- 1 \<le> rfind CHR ''/'' p"
    using rfind_bounds [of "CHR ''/''" p] by simp
  have "fst (splitext p) \<noteq> []"
  proof (cases "rfind CHR ''.'' p > rfind CHR ''/'' p")
    case True
    then have "nat (rfind CHR ''.'' p) < length p" using b s by linarith
    then show ?thesis
      using True by (simp add: splitext_def Let_def skip_leading_dots_root)
  next
    case False
    then show ?thesis using \<open>p \<noteq> []\<close> by (simp add: splitext_def Let_def)
  qed
  with False show ?thesis by simp
qed

lemma base_name_empty:
  "fst (splitext (basename file)) = [] \<longleftrightarrow> file = [] \<or> last file = CHR ''/''"
  by (simp add: splitext_root_empty basename_empty)

lemma ident_char_underscore: "ident_char CHR ''_''"
  by (simp add: ident_char_def)

lemma re_sub_ident_chars: "c \<in> set (re_sub_ident s) \<Longrightarrow> ident_char c"
  by (induction s) (auto simp add: ident_char_underscore split: if_splits)

lemma length_re_sub_ident: "length (re_sub_ident s) = length s"
  by (induction s) simp_all

lemma re_sub_ident_nth:
  "i < length s \<Longrightarrow> re_sub_ident s ! i = (if ident_char (s ! i) then s ! i else CHR ''_'')"
proof (induction s arbitrary: i)
  case Nil
  then show ?case by simp
next
  case (Cons c cs)
  then show ?case by (cases i) simp_all
qed

lemma re_sub_ident_fixed: "(\<forall>c \<in> set s. ident_char c) \<Longrightarrow> re_sub_ident s = s"
  by (induction s) simp_all

lemma re_sub_ident_empty: "re_sub_ident s = [] \<longleftrightarrow> s = []"
  by (cases s) simp_all

lemma isalpha_ident_char: "ident_char c \<Longrightarrow> isalpha c \<longleftrightarrow> (CHR ''a'' \<le> c \<and> c \<le> CHR ''z'') \<or> (CHR ''A'' \<le> c \<and> c \<le> CHR ''Z'')"
  by (auto simp add: isalpha_def ident_char_def less_eq_char_def)

lemma assert_after_sub:
  "assert_leading_letter (re_sub_ident s) =
     (case s of [] \<Rightarrow> Inl IndexError
      | c # cs \<Rightarrow> if (CHR ''a'' \<le> c \<and> c \<le> CHR ''z'') \<or> (CHR ''A'' \<le> c \<and> c \<le> CHR ''Z'') then Inr ()
          else Inl (AssertionError ''table_name must start with a letter''))"
  by (cases s) (auto simp add: assert_leading_letter_def isalpha_def ident_char_def less_eq_char_def)

lemmas base_defs = basename_def splitext_def rfind_def skip_leading_dots.simps

lemmas char_defs = ident_char_def isalpha_def

section \<open>Facts about the submission loop\<close>

lemma emit_simps:
  "trace (emit e s) = trace s @ [e]" "jobs (emit e s) = jobs s" "clock (emit e s) = clock s"
  by (simp_all add: emit_def)

lemma process_file_raise:
  "derive_table_name tp file = Inl e \<Longrightarrow>
     process_file c ds tp snap file s =
       (Some e, s\<lparr>trace := trace s @ [Info (Processing_file file),
          Info (Table_name (re_sub_ident (fst (splitext (basename file)))))]\<rparr>)"
  by (simp add: process_file_def derive_table_name_def Let_def emit_def split: sum.splits)

lemma process_file_skip:
  "derive_table_name tp file = Inr t \<Longrightarrow> t \<in> set snap \<Longrightarrow>
     process_file c ds tp snap file s =
       (None, s\<lparr>trace := trace s @ [Info (Processing_file file),
          Info (Table_name (re_sub_ident (fst (splitext (basename file))))),
          Info (Table_exists_skipping t)]\<rparr>)"
  by (auto simp add: process_file_def derive_table_name_def Let_def emit_def split: sum.splits)

lemma process_file_load_fails:
  "derive_table_name tp file = Inr t \<Longrightarrow> t \<notin> set snap \<Longrightarrow>
   load_table_from_uri c file ds t = Inl e \<Longrightarrow>
     process_file c ds tp snap file s =
       (Some e, s\<lparr>trace := trace s @ [Info (Processing_file file),
          Info (Table_name (re_sub_ident (fst (splitext (basename file))))),
          Call (Api_load_table_from_uri file ds t)]\<rparr>)"
  by (auto simp add: process_file_def derive_table_name_def Let_def emit_def split: sum.splits)

lemma process_file_load:
  "derive_table_name tp file = Inr t \<Longrightarrow> t \<notin> set snap \<Longrightarrow>
   load_table_from_uri c file ds t = Inr (d, r) \<Longrightarrow>
     process_file c ds tp snap file s =
       (None, s\<lparr>trace := trace s @ [Info (Processing_file file),
          Info (Table_name (re_sub_ident (fst (splitext (basename file))))),
          Call (Api_load_table_from_uri file ds t),
          Info (Started_load_job file ds t)],
         jobs := jobs s @ [\<lparr>job_id = length (jobs s), source_uri = file,
            destination = (ds, t), done_from = d, error_result = r\<rparr>]\<rparr>)"
  by (auto simp add: process_file_def derive_table_name_def Let_def emit_def split: sum.splits)


section \<open>The sanitizer and the leading-letter check\<close>

text \<open>
  Claim C5. For every input string the output of the substitution has the length of the
  input and contains only characters of the set of letters \<^verbatim>\<open>a-z\<close>, \<^verbatim>\<open>A-Z\<close>, digits and
  underscore: at each position a character of the set is left in place and any other
  character is replaced by an underscore.
\<close>

theorem sanitizer_output_charset:
  "(\<forall>c \<in> set (re_sub_ident s). ident_char c) \<and> length (re_sub_ident s) = length s \<and>
   (\<forall>i < length s. re_sub_ident s ! i = (if ident_char (s ! i) then s ! i else CHR ''_''))"
  by (simp add: re_sub_ident_chars length_re_sub_ident re_sub_ident_nth)

theorem sanitizer_output_charset_witness:
  "re_sub_ident ''1_bad file!'' = ''1_bad_file_'' \<and>
   CHR ''_'' \<in> set (re_sub_ident ''1_bad file!'') \<and> ident_char CHR ''_'' \<and>
   \<not> ident_char (''1_bad file!'' ! 5) \<and> re_sub_ident ''1_bad file!'' ! 5 = CHR ''_''"
proof -
  have e: "re_sub_ident ''1_bad file!'' = ''1_bad_file_''"
    by (simp add: ident_char_def)
  have m: "CHR ''_'' \<in> set (re_sub_ident ''1_bad file!'')"
    unfolding e by simp
  have n: "\<not> ident_char (''1_bad file!'' ! 5)"
    by (simp add: ident_char_def)
  have l: "5 < length ''1_bad file!''"
    by simp
  from sanitizer_output_charset [of "''1_bad file!''"] m
  have a: "ident_char CHR ''_''"
    by blast
  from sanitizer_output_charset [of "''1_bad file!''"] l
  have "re_sub_ident ''1_bad file!'' ! 5 =
      (if ident_char (''1_bad file!'' ! 5) then ''1_bad file!'' ! 5 else CHR ''_'')"
    by blast
  with n have "re_sub_ident ''1_bad file!'' ! 5 = CHR ''_''"
    by simp
  with e m a n show ?thesis by blast
qed

text \<open>
  Claim C6. The substitution returns a string made of letters, digits and underscores
  unchanged, and applying it twice to any string is the same as applying it once.
\<close>

theorem sanitizer_idempotent:
  "((\<forall>c \<in> set s. ident_char c) \<longrightarrow> re_sub_ident s = s) \<and>
   re_sub_ident (re_sub_ident s) = re_sub_ident s"
  by (simp add: re_sub_ident_fixed re_sub_ident_chars)

theorem sanitizer_idempotent_witness:
  "re_sub_ident ''orders_2024'' = ''orders_2024'' \<and>
   re_sub_ident (re_sub_ident ''1_bad file!'') = re_sub_ident ''1_bad file!''"
proof -
  have h: "\<forall>c \<in> set ''orders_2024''. ident_char c"
    by (simp add: ident_char_def)
  with sanitizer_idempotent [of "''orders_2024''"] sanitizer_idempotent [of "''1_bad file!''"]
  show ?thesis by blast
qed

text \<open>
  Claim C3. After the substitution, the assertion of line 83 fails (the spec's
  InvalidIdentifier) exactly when the result has a first character and that character is
  not a letter; when the first character of the result is a letter nothing is raised and
  the table identifier is the prefix followed by the substituted base name. This holds for
  every string given to the substitution, and so for the base name of every file.
\<close>

theorem leading_letter_check:
  "(assert_leading_letter (re_sub_ident s) = Inl (AssertionError ''table_name must start with a letter'')
      \<longleftrightarrow> (\<exists>c cs. re_sub_ident s = c # cs \<and> \<not> isalpha c)) \<and>
   ((\<exists>c cs. re_sub_ident s = c # cs \<and> isalpha c)
      \<longrightarrow> assert_leading_letter (re_sub_ident s) = Inr ()) \<and>
   (derive_table_name tp file = Inl (AssertionError ''table_name must start with a letter'')
      \<longleftrightarrow> (\<exists>c cs. re_sub_ident (fst (splitext (basename file))) = c # cs \<and> \<not> isalpha c)) \<and>
   ((\<exists>c cs. re_sub_ident (fst (splitext (basename file))) = c # cs \<and> isalpha c)
      \<longrightarrow> derive_table_name tp file = Inr (tp @ re_sub_ident (fst (splitext (basename file)))))"
proof -
  have a: "(assert_leading_letter n = Inl (AssertionError ''table_name must start with a letter'')
      \<longleftrightarrow> (\<exists>c cs. n = c # cs \<and> \<not> isalpha c)) \<and>
      ((\<exists>c cs. n = c # cs \<and> isalpha c) \<longrightarrow> assert_leading_letter n = Inr ())" for n
    by (cases n) (simp_all add: assert_leading_letter_def)
  have d: "derive_table_name tp file =
      (case assert_leading_letter (re_sub_ident (fst (splitext (basename file)))) of
         Inl e \<Rightarrow> Inl e
       | Inr u \<Rightarrow> Inr (tp @ re_sub_ident (fst (splitext (basename file)))))"
    by (simp add: derive_table_name_def Let_def)
  have "(derive_table_name tp file = Inl (AssertionError ''table_name must start with a letter'')
      \<longleftrightarrow> (\<exists>c cs. re_sub_ident (fst (splitext (basename file))) = c # cs \<and> \<not> isalpha c))"
    unfolding d using a [of "re_sub_ident (fst (splitext (basename file)))"]
    by (auto split: sum.splits)
  moreover have "(\<exists>c cs. re_sub_ident (fst (splitext (basename file))) = c # cs \<and> isalpha c)
      \<longrightarrow> derive_table_name tp file = Inr (tp @ re_sub_ident (fst (splitext (basename file))))"
    unfolding d using a [of "re_sub_ident (fst (splitext (basename file)))"]
    by (auto split: sum.splits)
  ultimately show ?thesis using a [of "re_sub_ident s"] by blast
qed

theorem leading_letter_check_witness:
  "(\<exists>c cs. re_sub_ident (fst (splitext (basename ''gs://b/raw/orders_2024.parquet''))) = c # cs \<and> isalpha c) \<and>
   derive_table_name ''t_'' ''gs://b/raw/orders_2024.parquet'' = Inr ''t_orders_2024'' \<and>
   derive_table_name ''t_'' ''gs://b/raw/1_bad file!.parquet'' =
     Inl (AssertionError ''table_name must start with a letter'')"
proof -
  have b: "re_sub_ident (fst (splitext (basename ''gs://b/raw/orders_2024.parquet''))) = ''orders_2024''"
    by (simp add: base_defs ident_char_def)
  have h: "\<exists>c cs. re_sub_ident (fst (splitext (basename ''gs://b/raw/orders_2024.parquet''))) = c # cs \<and> isalpha c"
    unfolding b by (simp add: isalpha_def)
  have "derive_table_name ''t_'' ''gs://b/raw/orders_2024.parquet'' =
      Inr (''t_'' @ re_sub_ident (fst (splitext (basename ''gs://b/raw/orders_2024.parquet''))))"
    using leading_letter_check [of "[]" "''t_''" "''gs://b/raw/orders_2024.parquet''"] h by blast
  then have ok: "derive_table_name ''t_'' ''gs://b/raw/orders_2024.parquet'' = Inr ''t_orders_2024''"
    unfolding b by simp
  have b2: "re_sub_ident (fst (splitext (basename ''gs://b/raw/1_bad file!.parquet''))) = ''1_bad_file_''"
    by (simp add: base_defs ident_char_def)
  have "\<exists>c cs. re_sub_ident (fst (splitext (basename ''gs://b/raw/1_bad file!.parquet''))) = c # cs \<and> \<not> isalpha c"
    unfolding b2 by (simp add: isalpha_def)
  then have bad: "derive_table_name ''t_'' ''gs://b/raw/1_bad file!.parquet'' =
     Inl (AssertionError ''table_name must start with a letter'')"
    using leading_letter_check [of "[]" "''t_''" "''gs://b/raw/1_bad file!.parquet''"] by blast
  from h ok bad show ?thesis by blast
qed

text \<open>
  Claim C9, as stated, at its own example: the base name of an object named exactly
  \<^verbatim>\<open>.parquet\<close> is not empty. \<^verbatim>\<open>os.path.splitext\<close> takes leading dots as part of the
  root, so the base name is \<^verbatim>\<open>.parquet\<close>, the substitution gives \<^verbatim>\<open>_parquet\<close>, and the
  check fails with the assertion, not with an index out of range.
\<close>

theorem dot_parquet_base_name_not_empty:
  "fst (splitext (basename ''gs://b/.parquet'')) = ''.parquet'' \<and>
   derive_table_name [] ''gs://b/.parquet'' =
     Inl (AssertionError ''table_name must start with a letter'') \<and>
   derive_table_name [] ''gs://b/.parquet'' \<noteq> Inl IndexError"
  by (simp add: derive_table_name_def base_defs char_defs assert_leading_letter_def)

text \<open>
  Claim C9, amended. The base name of a file is empty exactly when the file's name is
  empty or ends in a slash (a folder placeholder object such as \<^verbatim>\<open>raw/orders/\<close>). The
  leading-letter check raises \<^verbatim>\<open>IndexError\<close> exactly for these files, and the loop body
  then stops with that exception after its two log lines, without starting a job.
\<close>

theorem empty_base_name_index_error:
  "(fst (splitext (basename file)) = [] \<longleftrightarrow> file = [] \<or> last file = CHR ''/'') \<and>
   (derive_table_name tp file = Inl IndexError \<longleftrightarrow> fst (splitext (basename file)) = []) \<and>
   (fst (splitext (basename file)) = [] \<longrightarrow>
      process_file c ds tp snap file s =
        (Some IndexError, s\<lparr>trace := trace s @ [Info (Processing_file file), Info (Table_name [])]\<rparr>))"
proof -
  have d: "derive_table_name tp file = Inl IndexError \<longleftrightarrow> fst (splitext (basename file)) = []"
    by (cases "fst (splitext (basename file))")
      (simp_all add: derive_table_name_def assert_leading_letter_def Let_def)
  have "fst (splitext (basename file)) = [] \<longrightarrow>
      process_file c ds tp snap file s =
        (Some IndexError, s\<lparr>trace := trace s @ [Info (Processing_file file), Info (Table_name [])]\<rparr>)"
  proof
    assume e: "fst (splitext (basename file)) = []"
    with d have "derive_table_name tp file = Inl IndexError" by simp
    from process_file_raise [OF this] e show "process_file c ds tp snap file s =
        (Some IndexError, s\<lparr>trace := trace s @ [Info (Processing_file file), Info (Table_name [])]\<rparr>)"
      by simp
  qed
  with d base_name_empty [of "file"] show ?thesis by blast
qed

theorem empty_base_name_index_error_witness:
  "fst (splitext (basename ''gs://b/raw/orders/'')) = [] \<and>
   process_file (example_client [] [] (\<lambda>f. (None, None))) ''raw_orders'' [] [] ''gs://b/raw/orders/'' init_state =
     (Some IndexError, \<lparr>trace = [Info (Processing_file ''gs://b/raw/orders/''), Info (Table_name [])],
        jobs = [], clock = 0\<rparr>)"
proof -
  have h: "fst (splitext (basename ''gs://b/raw/orders/'')) = []"
    by (simp add: base_defs)
  from empty_base_name_index_error [of "''gs://b/raw/orders/''" "[]"
      "example_client [] [] (\<lambda>f. (None, None))" "''raw_orders''" "[]" init_state] h
  show ?thesis by (simp add: init_state_def)
qed

section \<open>The submission loop\<close>

lemma submit_loop_append:
  "submit_loop c ds tp snap pre s = (None, s1) \<Longrightarrow>
     submit_loop c ds tp snap (pre @ rest) s = submit_loop c ds tp snap rest s1"
proof (induction pre arbitrary: s)
  case Nil
  then show ?case by simp
next
  case (Cons f pre)
  obtain r2 s2 where p: "process_file c ds tp snap f s = (r2, s2)"
    by (cases "process_file c ds tp snap f s")
  show ?case
  proof (cases r2)
    case None
    with p Cons.prems have "submit_loop c ds tp snap pre s2 = (None, s1)" by simp
    from Cons.IH [OF this] p None show ?thesis by simp
  next
    case (Some e)
    with p Cons.prems show ?thesis by simp
  qed
qed

lemma derive_table_name_prefix:
  "derive_table_name tp f =
     (case derive_table_name [] f of Inl e \<Rightarrow> Inl e | Inr t \<Rightarrow> Inr (tp @ t))"
  by (simp add: derive_table_name_def Let_def split: sum.splits)

text \<open>
  Claim C10. The leading-letter check sees the sanitized base name only: the outcome for
  a table name prefix is the outcome for the empty prefix with the prefix put in front. So
  a base name that does not start with a letter fails the assertion whatever the prefix
  is, and for an accepted base name the job is started for the prefixed identifier, which
  is looked up in the snapshot and sent to the warehouse without a check of its own first
  character.
\<close>

theorem prefix_prepended_after_check:
  "derive_table_name tp f =
     (case derive_table_name [] f of Inl e \<Rightarrow> Inl e | Inr t \<Rightarrow> Inr (tp @ t)) \<and>
   ((\<exists>c cs. re_sub_ident (fst (splitext (basename f))) = c # cs \<and> \<not> isalpha c) \<longrightarrow>
      fst (process_file c ds tp snap f s) =
        Some (AssertionError ''table_name must start with a letter'')) \<and>
   (derive_table_name [] f = Inr t \<and> tp @ t \<notin> set snap \<and>
    load_table_from_uri c f ds (tp @ t) = Inr (d, r) \<longrightarrow>
      fst (process_file c ds tp snap f s) = None \<and>
      jobs (snd (process_file c ds tp snap f s)) =
        jobs s @ [\<lparr>job_id = length (jobs s), source_uri = f, destination = (ds, tp @ t),
          done_from = d, error_result = r\<rparr>])"
proof -
  have 1: "(\<exists>c cs. re_sub_ident (fst (splitext (basename f))) = c # cs \<and> \<not> isalpha c) \<longrightarrow>
      fst (process_file c ds tp snap f s) =
        Some (AssertionError ''table_name must start with a letter'')"
  proof
    assume "\<exists>c cs. re_sub_ident (fst (splitext (basename f))) = c # cs \<and> \<not> isalpha c"
    then have "derive_table_name tp f =
        Inl (AssertionError ''table_name must start with a letter'')"
      by (auto simp add: derive_table_name_def assert_leading_letter_def Let_def)
    from process_file_raise [OF this]
    show "fst (process_file c ds tp snap f s) =
        Some (AssertionError ''table_name must start with a letter'')"
      by simp
  qed
  have 2: "derive_table_name [] f = Inr t \<and> tp @ t \<notin> set snap \<and>
    load_table_from_uri c f ds (tp @ t) = Inr (d, r) \<longrightarrow>
      fst (process_file c ds tp snap f s) = None \<and>
      jobs (snd (process_file c ds tp snap f s)) =
        jobs s @ [\<lparr>job_id = length (jobs s), source_uri = f, destination = (ds, tp @ t),
          done_from = d, error_result = r\<rparr>]"
  proof
    assume a: "derive_table_name [] f = Inr t \<and> tp @ t \<notin> set snap \<and>
      load_table_from_uri c f ds (tp @ t) = Inr (d, r)"
    then have "derive_table_name tp f = Inr (tp @ t)"
      by (simp add: derive_table_name_prefix [of tp])
    from process_file_load [OF this] a
    show "fst (process_file c ds tp snap f s) = None \<and>
      jobs (snd (process_file c ds tp snap f s)) =
        jobs s @ [\<lparr>job_id = length (jobs s), source_uri = f, destination = (ds, tp @ t),
          done_from = d, error_result = r\<rparr>]"
      by simp
  qed
  from derive_table_name_prefix 1 2 show ?thesis by blast
qed

theorem prefix_prepended_after_check_witness:
  "fst (process_file (example_client [] [] (\<lambda>f. (Some 0, None))) ''raw_orders'' ''t_'' []
      ''gs://b/raw/orders/2024.parquet'' init_state) =
     Some (AssertionError ''table_name must start with a letter'') \<and>
   jobs (snd (process_file (example_client [] [] (\<lambda>f. (Some 0, None))) ''raw_orders'' ''1_'' []
      ''gs://b/raw/orders/a.parquet'' init_state)) =
     [\<lparr>job_id = 0, source_uri = ''gs://b/raw/orders/a.parquet'',
       destination = (''raw_orders'', ''1_a''), done_from = Some 0, error_result = None\<rparr>]"
proof -
  have b: "re_sub_ident (fst (splitext (basename ''gs://b/raw/orders/2024.parquet''))) = ''2024''"
    by (simp add: base_defs ident_char_def)
  have h1: "\<exists>c cs. re_sub_ident (fst (splitext (basename ''gs://b/raw/orders/2024.parquet''))) = c # cs
      \<and> \<not> isalpha c"
    unfolding b by (simp add: isalpha_def)
  have h2: "derive_table_name [] ''gs://b/raw/orders/a.parquet'' = Inr ''a'' \<and>
      ''1_'' @ ''a'' \<notin> set [] \<and>
      load_table_from_uri (example_client [] [] (\<lambda>f. (Some 0, None)))
        ''gs://b/raw/orders/a.parquet'' ''raw_orders'' (''1_'' @ ''a'') = Inr (Some 0, None)"
    by (simp add: derive_table_name_def base_defs char_defs assert_leading_letter_def
        example_client_def)
  from prefix_prepended_after_check [of "''t_''" "''gs://b/raw/orders/2024.parquet''"
      "example_client [] [] (\<lambda>f. (Some 0, None))" "''raw_orders''" "[]" init_state] h1
  have 1: "fst (process_file (example_client [] [] (\<lambda>f. (Some 0, None))) ''raw_orders'' ''t_'' []
      ''gs://b/raw/orders/2024.parquet'' init_state) =
     Some (AssertionError ''table_name must start with a letter'')"
    by blast
  from prefix_prepended_after_check [of "''1_''" "''gs://b/raw/orders/a.parquet''"
      "example_client [] [] (\<lambda>f. (Some 0, None))" "''raw_orders''" "[]" init_state
      "''a''" "Some 0" None] h2
  have "jobs (snd (process_file (example_client [] [] (\<lambda>f. (Some 0, None))) ''raw_orders'' ''1_'' []
      ''gs://b/raw/orders/a.parquet'' init_state)) =
     jobs init_state @ [\<lparr>job_id = length (jobs init_state), source_uri = ''gs://b/raw/orders/a.parquet'',
       destination = (''raw_orders'', ''1_'' @ ''a''), done_from = Some 0, error_result = None\<rparr>]"
    by blast
  then have 2: "jobs (snd (process_file (example_client [] [] (\<lambda>f. (Some 0, None))) ''raw_orders'' ''1_'' []
      ''gs://b/raw/orders/a.parquet'' init_state)) =
     [\<lparr>job_id = 0, source_uri = ''gs://b/raw/orders/a.parquet'',
       destination = (''raw_orders'', ''1_a''), done_from = Some 0, error_result = None\<rparr>]"
    by (simp add: init_state_def)
  from 1 2 show ?thesis by blast
qed

text \<open>
  Claim C1, as stated, at two objects of one prefix with the same base name: both get a
  load job, for the same table of the same dataset. The snapshot is taken once and is not
  extended by the jobs the loop starts.
\<close>

theorem same_table_loaded_twice:
  "map destination (jobs (snd (submit_loop (example_client [] [] (\<lambda>f. (Some 0, None)))
      ''raw_orders'' [] []
      [''gs://b/raw/orders/a.parquet'', ''gs://b/raw/orders/old/a.parquet''] init_state))) =
     [(''raw_orders'', ''a''), (''raw_orders'', ''a'')]"
  by (simp add: process_file_def base_defs char_defs assert_leading_letter_def
      example_client_def init_state_def emit_def Let_def)

lemma first_error_single: "first_error c ds tp snap [f] = file_error c ds tp snap f"
  by (simp split: option.splits)

lemma process_file_step:
  assumes "process_file c ds tp snap f s = (r, s')"
  shows "\<exists>es js. loop_adds c ds tp snap [f] r s s' es js"
proof (cases "derive_table_name tp f")
  case (Inl e)
  from assms show ?thesis
    unfolding process_file_raise [OF Inl] loop_adds_def first_error_single
    using Inl by (auto simp add: file_error_def)
next
  case (Inr t)
  show ?thesis
  proof (cases "t \<in> set snap")
    case True
    from assms show ?thesis
      unfolding process_file_skip [OF Inr True] loop_adds_def first_error_single
      using Inr True by (auto simp add: file_error_def to_load_def)
  next
    case False
    show ?thesis
    proof (cases "load_table_from_uri c f ds t")
      case (Inl e)
      from assms show ?thesis
        unfolding process_file_load_fails [OF Inr False Inl] loop_adds_def first_error_single
        using False Inl \<open>derive_table_name tp f = Inr t\<close> by (auto simp add: file_error_def)
    next
      case (Inr dr)
      obtain d rr where dr: "dr = (d, rr)" by (cases dr)
      from assms show ?thesis
        unfolding process_file_load [OF \<open>derive_table_name tp f = Inr t\<close> False Inr [unfolded dr]]
          loop_adds_def first_error_single
        using False Inr \<open>derive_table_name tp f = Inr t\<close>
        by (auto simp add: file_error_def to_load_def)
    qed
  qed
qed

lemma loop_adds_trace: "loop_adds c ds tp snap files r s s' es js \<Longrightarrow> trace s' = trace s @ es"
  by (simp add: loop_adds_def)

lemma loop_adds_jobs: "loop_adds c ds tp snap files r s s' es js \<Longrightarrow> jobs s' = jobs s @ js"
  by (simp add: loop_adds_def)

lemma loop_adds_clock: "loop_adds c ds tp snap files r s s' es js \<Longrightarrow> clock s' = clock s"
  by (simp add: loop_adds_def)

lemma loop_adds_calls:
  "loop_adds c ds tp snap files r s s' es js \<Longrightarrow>
     Call (Api_load_table_from_uri f d t) \<in> set es \<Longrightarrow> t \<notin> set snap"
  unfolding loop_adds_def by blast

lemma loop_adds_dest:
  "loop_adds c ds tp snap files r s s' es js \<Longrightarrow> j \<in> set js \<Longrightarrow>
     destination j = (ds, snd (destination j)) \<and>
     snd (destination j) \<notin> set snap \<and> source_uri j \<in> set files \<and>
     derive_table_name tp (source_uri j) = Inr (snd (destination j))"
  unfolding loop_adds_def by blast

lemma loop_adds_ids:
  "loop_adds c ds tp snap files r s s' es js \<Longrightarrow>
     map job_id js = [length (jobs s)..<length (jobs s) + length js]"
  by (simp add: loop_adds_def)

lemma loop_adds_result:
  "loop_adds c ds tp snap files r s s' es js \<Longrightarrow> r = first_error c ds tp snap files"
  by (simp add: loop_adds_def)

lemma loop_adds_sources:
  "loop_adds c ds tp snap files r s s' es js \<Longrightarrow>
     map source_uri js =
       filter (to_load tp snap) (takeWhile (\<lambda>f. file_error c ds tp snap f = None) files)"
  by (simp add: loop_adds_def)

lemma loop_adds_stop:
  assumes "loop_adds c ds tp snap [f] (Some e) s s' es js"
  shows "loop_adds c ds tp snap (f # files) (Some e) s s' es js"
proof -
  have fe: "file_error c ds tp snap f = Some e"
    using loop_adds_result [OF assms, unfolded first_error_single] by simp
  have d: "\<forall>j \<in> set js. destination j = (ds, snd (destination j)) \<and>
      snd (destination j) \<notin> set snap \<and> source_uri j \<in> set (f # files) \<and>
      derive_table_name tp (source_uri j) = Inr (snd (destination j))"
    using loop_adds_dest [OF assms] by auto
  have l: "\<forall>f d t. Call (Api_load_table_from_uri f d t) \<in> set es \<longrightarrow> t \<notin> set snap"
    using loop_adds_calls [OF assms] by blast
  have r: "Some e = first_error c ds tp snap (f # files)"
    using fe by simp
  have m: "map source_uri js =
      filter (to_load tp snap) (takeWhile (\<lambda>f. file_error c ds tp snap f = None) (f # files))"
    using loop_adds_sources [OF assms] fe by simp
  show ?thesis
    unfolding loop_adds_def
    by (intro conjI loop_adds_trace [OF assms] loop_adds_jobs [OF assms]
        loop_adds_clock [OF assms] l d loop_adds_ids [OF assms] r m)
qed

lemma loop_adds_append:
  assumes 1: "loop_adds c ds tp snap [f] None s s1 es1 js1"
    and 2: "loop_adds c ds tp snap files r s1 s' es2 js2"
  shows "loop_adds c ds tp snap (f # files) r s s' (es1 @ es2) (js1 @ js2)"
proof -
  have fe: "file_error c ds tp snap f = None"
    using loop_adds_result [OF 1, unfolded first_error_single] by simp
  have t: "trace s' = trace s @ es1 @ es2"
    using loop_adds_trace [OF 1] loop_adds_trace [OF 2] by simp
  have j: "jobs s' = jobs s @ js1 @ js2"
    using loop_adds_jobs [OF 1] loop_adds_jobs [OF 2] by simp
  have k: "clock s' = clock s"
    using loop_adds_clock [OF 1] loop_adds_clock [OF 2] by simp
  have l: "\<forall>f d t. Call (Api_load_table_from_uri f d t) \<in> set (es1 @ es2) \<longrightarrow> t \<notin> set snap"
    using loop_adds_calls [OF 1] loop_adds_calls [OF 2] by auto
  have d: "\<forall>j \<in> set (js1 @ js2). destination j = (ds, snd (destination j)) \<and>
      snd (destination j) \<notin> set snap \<and> source_uri j \<in> set (f # files) \<and>
      derive_table_name tp (source_uri j) = Inr (snd (destination j))"
    using loop_adds_dest [OF 1] loop_adds_dest [OF 2] by auto
  have i1: "map job_id js1 = [length (jobs s)..<length (jobs s) + length js1]"
    by (rule loop_adds_ids [OF 1])
  have i2: "map job_id js2 =
      [length (jobs s) + length js1..<length (jobs s) + length js1 + length js2]"
    using loop_adds_ids [OF 2] loop_adds_jobs [OF 1] by simp
  have "[length (jobs s)..<length (jobs s) + length js1 + length js2] =
          [length (jobs s)..<length (jobs s) + length js1] @
          [length (jobs s) + length js1..<length (jobs s) + length js1 + length js2]"
    by (rule upt_add_eq_append) simp
  moreover have "length (jobs s) + length (js1 @ js2) = length (jobs s) + length js1 + length js2"
    by simp
  ultimately have i:
    "map job_id (js1 @ js2) = [length (jobs s)..<length (jobs s) + length (js1 @ js2)]"
    using i1 i2 by (simp only: map_append)
  have r: "r = first_error c ds tp snap (f # files)"
    using loop_adds_result [OF 2] fe by simp
  have m: "map source_uri (js1 @ js2) =
      filter (to_load tp snap) (takeWhile (\<lambda>f. file_error c ds tp snap f = None) (f # files))"
    using loop_adds_sources [OF 1] loop_adds_sources [OF 2] fe by simp
  show ?thesis
    unfolding loop_adds_def by (intro conjI t [simplified] j [simplified] k l d i r m)
qed

lemma submit_loop_step:
  "submit_loop c ds tp snap files s = (r, s') \<Longrightarrow>
     \<exists>es js. loop_adds c ds tp snap files r s s' es js"
proof (induction files arbitrary: s)
  case Nil
  then show ?case by (simp add: loop_adds_def)
next
  case (Cons f files)
  obtain r1 s1 where p: "process_file c ds tp snap f s = (r1, s1)"
    by (cases "process_file c ds tp snap f s")
  from process_file_step [OF p] obtain es1 js1
    where 1: "loop_adds c ds tp snap [f] r1 s s1 es1 js1"
    by blast
  show ?case
  proof (cases r1)
    case (Some e)
    with p Cons.prems have "r = Some e" "s' = s1" by simp_all
    with 1 Some show ?thesis using loop_adds_stop by blast
  next
    case None
    with p Cons.prems have rest: "submit_loop c ds tp snap files s1 = (r, s')" by simp
    from Cons.IH [OF rest] obtain es2 js2
      where 2: "loop_adds c ds tp snap files r s1 s' es2 js2"
      by blast
    from loop_adds_append [OF 1 [unfolded None] 2] show ?thesis by blast
  qed
qed

text \<open>
  Claim C1, amended. In a run of the submission loop that starts without jobs, no load
  job is started and no load call is made for a table identifier of the catalog snapshot.
  The objects are taken in listing order up to the first one that raises (from the
  leading-letter check, or from its load call), and the loop ends with that exception,
  or without one when no object raises. The jobs started are, in order, one for each
  object before that one whose derived identifier is not in the snapshot, each for the
  dataset and the identifier derived from its object and each with a \<open>job_id\<close> of its
  own; no other job is started.
\<close>

theorem catalog_tables_never_loaded:
  assumes "submit_loop c ds tp snap files s = (r, s')" and "jobs s = []"
  shows "(\<forall>j \<in> set (jobs s'). destination j = (ds, snd (destination j)) \<and>
            snd (destination j) \<notin> set snap \<and> source_uri j \<in> set files \<and>
            derive_table_name tp (source_uri j) = Inr (snd (destination j))) \<and>
         (\<forall>f d t. Call (Api_load_table_from_uri f d t) \<in> set (drop (length (trace s)) (trace s'))
            \<longrightarrow> t \<notin> set snap) \<and>
         r = first_error c ds tp snap files \<and>
         map source_uri (jobs s') =
           filter (to_load tp snap) (takeWhile (\<lambda>f. file_error c ds tp snap f = None) files) \<and>
         distinct (map job_id (jobs s'))"
proof -
  from submit_loop_step [OF assms(1)] obtain es js
    where a: "loop_adds c ds tp snap files r s s' es js"
    by blast
  have j: "jobs s' = js"
    using loop_adds_jobs [OF a] assms(2) by simp
  have t: "drop (length (trace s)) (trace s') = es"
    using loop_adds_trace [OF a] by simp
  have 1: "\<forall>j \<in> set (jobs s'). destination j = (ds, snd (destination j)) \<and>
            snd (destination j) \<notin> set snap \<and> source_uri j \<in> set files \<and>
            derive_table_name tp (source_uri j) = Inr (snd (destination j))"
    unfolding j using loop_adds_dest [OF a] by blast
  have 2: "\<forall>f d t. Call (Api_load_table_from_uri f d t) \<in> set (drop (length (trace s)) (trace s'))
            \<longrightarrow> t \<notin> set snap"
    unfolding t using loop_adds_calls [OF a] by blast
  have 3: "r = first_error c ds tp snap files"
    by (rule loop_adds_result [OF a])
  have 4: "map source_uri (jobs s') =
           filter (to_load tp snap) (takeWhile (\<lambda>f. file_error c ds tp snap f = None) files)"
    unfolding j by (rule loop_adds_sources [OF a])
  have 5: "distinct (map job_id (jobs s'))"
    unfolding j loop_adds_ids [OF a] by simp
  from 1 2 3 4 5 show ?thesis by blast
qed

theorem catalog_tables_never_loaded_witness:
  "fst (submit_loop (example_client [] [] (\<lambda>f. (Some 0, None))) ''raw_orders'' [] [''b'']
      [''gs://b/raw/orders/a.parquet'', ''gs://b/raw/orders/b.parquet'',
       ''gs://b/raw/orders/old/a.parquet'', ''gs://b/raw/orders/1.parquet'',
       ''gs://b/raw/orders/c.parquet''] init_state) =
     Some (AssertionError ''table_name must start with a letter'') \<and>
   map source_uri (jobs (snd (submit_loop (example_client [] [] (\<lambda>f. (Some 0, None)))
      ''raw_orders'' [] [''b'']
      [''gs://b/raw/orders/a.parquet'', ''gs://b/raw/orders/b.parquet'',
       ''gs://b/raw/orders/old/a.parquet'', ''gs://b/raw/orders/1.parquet'',
       ''gs://b/raw/orders/c.parquet''] init_state))) =
     [''gs://b/raw/orders/a.parquet'', ''gs://b/raw/orders/old/a.parquet'']"
proof -
  let ?c = "example_client [] [] (\<lambda>f. (Some 0, None))"
  let ?files = "[''gs://b/raw/orders/a.parquet'', ''gs://b/raw/orders/b.parquet'',
       ''gs://b/raw/orders/old/a.parquet'', ''gs://b/raw/orders/1.parquet'',
       ''gs://b/raw/orders/c.parquet'']"
  obtain r s' where e: "submit_loop ?c ''raw_orders'' [] [''b''] ?files init_state = (r, s')"
    by (cases "submit_loop ?c ''raw_orders'' [] [''b''] ?files init_state")
  have i: "jobs init_state = []"
    by (simp add: init_state_def)
  have d: "derive_table_name [] ''gs://b/raw/orders/a.parquet'' = Inr ''a''"
    "derive_table_name [] ''gs://b/raw/orders/b.parquet'' = Inr ''b''"
    "derive_table_name [] ''gs://b/raw/orders/old/a.parquet'' = Inr ''a''"
    "derive_table_name [] ''gs://b/raw/orders/1.parquet'' =
       Inl (AssertionError ''table_name must start with a letter'')"
    by (simp_all add: derive_table_name_def base_defs char_defs assert_leading_letter_def)
  from catalog_tables_never_loaded [OF e i]
  have "r = first_error ?c ''raw_orders'' [] [''b''] ?files"
    and "map source_uri (jobs s') =
      filter (to_load [] [''b''])
        (takeWhile (\<lambda>f. file_error ?c ''raw_orders'' [] [''b''] f = None) ?files)"
    by blast+
  then have "r = Some (AssertionError ''table_name must start with a letter'')"
    and "map source_uri (jobs s') =
      [''gs://b/raw/orders/a.parquet'', ''gs://b/raw/orders/old/a.parquet'']"
    by (simp_all add: file_error_def to_load_def d example_client_def)
  with e show ?thesis by simp
qed

text \<open>
  Claim C4. For an object whose derived table identifier is in the catalog snapshot, the
  run of the loop makes no load call and starts no job for that identifier; and when the
  loop reaches the object (the objects before it were processed without an exception),
  the body only adds its log lines, the last of them the skip line.
\<close>

theorem skip_law:
  assumes run: "submit_loop c ds tp snap (pre @ f # post) s = (r, s')"
    and name: "derive_table_name tp f = Inr t"
    and known: "t \<in> set snap"
  shows "(\<forall>f' d. Call (Api_load_table_from_uri f' d t) \<notin> set (drop (length (trace s)) (trace s'))) \<and>
         (\<forall>j \<in> set (drop (length (jobs s)) (jobs s')). snd (destination j) \<noteq> t) \<and>
         (\<forall>s1. submit_loop c ds tp snap pre s = (None, s1) \<longrightarrow>
            process_file c ds tp snap f s1 =
              (None, s1\<lparr>trace := trace s1 @ [Info (Processing_file f),
                 Info (Table_name (re_sub_ident (fst (splitext (basename f))))),
                 Info (Table_exists_skipping t)]\<rparr>) \<and>
            Info (Table_exists_skipping t) \<in> set (drop (length (trace s)) (trace s')))"
proof -
  from submit_loop_step [OF run] obtain es js
    where a: "loop_adds c ds tp snap (pre @ f # post) r s s' es js"
    by blast
  have te: "drop (length (trace s)) (trace s') = es"
    using loop_adds_trace [OF a] by simp
  have je: "drop (length (jobs s)) (jobs s') = js"
    using loop_adds_jobs [OF a] by simp
  have 1: "\<forall>f' d. Call (Api_load_table_from_uri f' d t) \<notin> set (drop (length (trace s)) (trace s'))"
    unfolding te using loop_adds_calls [OF a] known by blast
  have 2: "\<forall>j \<in> set (drop (length (jobs s)) (jobs s')). snd (destination j) \<noteq> t"
    unfolding je using loop_adds_dest [OF a] known by blast
  have 3: "\<forall>s1. submit_loop c ds tp snap pre s = (None, s1) \<longrightarrow>
            process_file c ds tp snap f s1 =
              (None, s1\<lparr>trace := trace s1 @ [Info (Processing_file f),
                 Info (Table_name (re_sub_ident (fst (splitext (basename f))))),
                 Info (Table_exists_skipping t)]\<rparr>) \<and>
            Info (Table_exists_skipping t) \<in> set (drop (length (trace s)) (trace s'))"
  proof (intro allI impI)
    fix s1
    assume reached: "submit_loop c ds tp snap pre s = (None, s1)"
    define s2 where "s2 = s1\<lparr>trace := trace s1 @ [Info (Processing_file f),
                 Info (Table_name (re_sub_ident (fst (splitext (basename f))))),
                 Info (Table_exists_skipping t)]\<rparr>"
    have p: "process_file c ds tp snap f s1 = (None, s2)"
      unfolding s2_def by (rule process_file_skip [OF name known])
    from submit_loop_step [OF reached] obtain es1 js1
      where b: "loop_adds c ds tp snap pre None s s1 es1 js1"
      by blast
    have "submit_loop c ds tp snap (pre @ f # post) s = submit_loop c ds tp snap (f # post) s1"
      by (rule submit_loop_append [OF reached])
    with run p have "submit_loop c ds tp snap post s2 = (r, s')"
      by simp
    from submit_loop_step [OF this] obtain es3 js3
      where c: "loop_adds c ds tp snap post r s2 s' es3 js3"
      by blast
    have "trace s' = trace s @ es1 @ [Info (Processing_file f),
                 Info (Table_name (re_sub_ident (fst (splitext (basename f))))),
                 Info (Table_exists_skipping t)] @ es3"
      using loop_adds_trace [OF b] loop_adds_trace [OF c] by (simp add: s2_def)
    then have "Info (Table_exists_skipping t) \<in> set (drop (length (trace s)) (trace s'))"
      by simp
    with p show "process_file c ds tp snap f s1 =
              (None, s1\<lparr>trace := trace s1 @ [Info (Processing_file f),
                 Info (Table_name (re_sub_ident (fst (splitext (basename f))))),
                 Info (Table_exists_skipping t)]\<rparr>) \<and>
            Info (Table_exists_skipping t) \<in> set (drop (length (trace s)) (trace s'))"
      unfolding s2_def by blast
  qed
  from 1 2 3 show ?thesis by blast
qed

theorem skip_law_witness:
  "submit_loop (example_client [] [] (\<lambda>f. (Some 0, None))) ''sales'' [] [''orders_2024'']
     [''gs://b/sales/orders_2023.parquet'', ''gs://b/sales/orders_2024.parquet''] init_state =
     (None,
      \<lparr>trace = [Info (Processing_file ''gs://b/sales/orders_2023.parquet''),
         Info (Table_name ''orders_2023''),
         Call (Api_load_table_from_uri ''gs://b/sales/orders_2023.parquet'' ''sales'' ''orders_2023''),
         Info (Started_load_job ''gs://b/sales/orders_2023.parquet'' ''sales'' ''orders_2023''),
         Info (Processing_file ''gs://b/sales/orders_2024.parquet''),
         Info (Table_name ''orders_2024''),
         Info (Table_exists_skipping ''orders_2024'')],
       jobs = [\<lparr>job_id = 0, source_uri = ''gs://b/sales/orders_2023.parquet'',
         destination = (''sales'', ''orders_2023''), done_from = Some 0, error_result = None\<rparr>],
       clock = 0\<rparr>) \<and>
   Info (Table_exists_skipping ''orders_2024'') \<in> set (trace (snd
     (submit_loop (example_client [] [] (\<lambda>f. (Some 0, None))) ''sales'' [] [''orders_2024'']
       [''gs://b/sales/orders_2023.parquet'', ''gs://b/sales/orders_2024.parquet''] init_state)))"
proof -
  let ?c = "example_client [] [] (\<lambda>f. (Some 0, None))"
  let ?s1 = "\<lparr>trace = [Info (Processing_file ''gs://b/sales/orders_2023.parquet''),
         Info (Table_name ''orders_2023''),
         Call (Api_load_table_from_uri ''gs://b/sales/orders_2023.parquet'' ''sales'' ''orders_2023''),
         Info (Started_load_job ''gs://b/sales/orders_2023.parquet'' ''sales'' ''orders_2023'')],
       jobs = [\<lparr>job_id = 0, source_uri = ''gs://b/sales/orders_2023.parquet'',
         destination = (''sales'', ''orders_2023''), done_from = Some 0, error_result = None\<rparr>],
       clock = 0\<rparr>"
  obtain r s' where run: "submit_loop ?c ''sales'' [] [''orders_2024'']
      ([''gs://b/sales/orders_2023.parquet''] @ ''gs://b/sales/orders_2024.parquet'' # []) init_state
      = (r, s')"
    by (cases "submit_loop ?c ''sales'' [] [''orders_2024'']
      ([''gs://b/sales/orders_2023.parquet''] @ ''gs://b/sales/orders_2024.parquet'' # []) init_state")
  have name: "derive_table_name [] ''gs://b/sales/orders_2024.parquet'' = Inr ''orders_2024''"
    by (simp add: derive_table_name_def base_defs char_defs assert_leading_letter_def)
  have known: "''orders_2024'' \<in> set [''orders_2024'']"
    by simp
  have reached: "submit_loop ?c ''sales'' [] [''orders_2024'']
      [''gs://b/sales/orders_2023.parquet''] init_state = (None, ?s1)"
    by (simp add: process_file_def base_defs char_defs assert_leading_letter_def
      example_client_def init_state_def emit_def Let_def)
  from skip_law [OF run name known] reached
  have step: "process_file ?c ''sales'' [] [''orders_2024''] ''gs://b/sales/orders_2024.parquet'' ?s1 =
      (None, ?s1\<lparr>trace := trace ?s1 @ [Info (Processing_file ''gs://b/sales/orders_2024.parquet''),
         Info (Table_name (re_sub_ident (fst (splitext (basename ''gs://b/sales/orders_2024.parquet''))))),
         Info (Table_exists_skipping ''orders_2024'')]\<rparr>)"
    and logged: "Info (Table_exists_skipping ''orders_2024'') \<in> set (drop (length (trace init_state)) (trace s'))"
    by blast+
  have b: "re_sub_ident (fst (splitext (basename ''gs://b/sales/orders_2024.parquet''))) = ''orders_2024''"
    by (simp add: base_defs ident_char_def)
  have "submit_loop ?c ''sales'' [] [''orders_2024'']
     [''gs://b/sales/orders_2023.parquet'', ''gs://b/sales/orders_2024.parquet''] init_state =
     submit_loop ?c ''sales'' [] [''orders_2024''] [''gs://b/sales/orders_2024.parquet''] ?s1"
    using submit_loop_append [OF reached, of "[''gs://b/sales/orders_2024.parquet'']"] by simp
  also have "\<dots> = (None, ?s1\<lparr>trace := trace ?s1 @ [Info (Processing_file ''gs://b/sales/orders_2024.parquet''),
         Info (Table_name ''orders_2024''),
         Info (Table_exists_skipping ''orders_2024'')]\<rparr>)"
    using step unfolding b by simp
  finally have whole: "submit_loop ?c ''sales'' [] [''orders_2024'']
     [''gs://b/sales/orders_2023.parquet'', ''gs://b/sales/orders_2024.parquet''] init_state =
     (None, ?s1\<lparr>trace := trace ?s1 @ [Info (Processing_file ''gs://b/sales/orders_2024.parquet''),
         Info (Table_name ''orders_2024''),
         Info (Table_exists_skipping ''orders_2024'')]\<rparr>)" .
  from logged run have "Info (Table_exists_skipping ''orders_2024'') \<in> set (trace (snd
     (submit_loop ?c ''sales'' [] [''orders_2024'']
       [''gs://b/sales/orders_2023.parquet'', ''gs://b/sales/orders_2024.parquet''] init_state)))"
    by (simp add: init_state_def)
  with whole show ?thesis by simp
qed

section \<open>Facts about the polling loop\<close>

lemma poll_done_eq:
  "poll_done x s =
     (job_done x (clock s),
      s\<lparr>trace := trace s @ [Call (Api_done (job_id x) (job_done x (clock s)))],
        clock := Suc (clock s)\<rparr>)"
  by (simp add: poll_done_def emit_def Let_def)

lemma poll_done_fields:
  "jobs (snd (poll_done x s)) = jobs s"
  "clock (snd (poll_done x s)) = Suc (clock s)"
  "trace (snd (poll_done x s)) = trace s @ [Call (Api_done (job_id x) (job_done x (clock s)))]"
  by (simp_all add: poll_done_eq)

lemma complete_job_failed:
  "error_result x = Some p \<Longrightarrow>
     complete_job x s = (Some (JobError p), s\<lparr>trace := trace s @ [Call (Api_result (job_id x))]\<rparr>)"
  by (simp add: complete_job_def job_result_def emit_def Let_def)

lemma complete_job_ok:
  "error_result x = None \<Longrightarrow>
     complete_job x s =
       (None, s\<lparr>trace := trace s @ [Call (Api_result (job_id x)),
                 Info (Completed_job (job_id x) (source_uri x) (destination x))],
               jobs := remove1 x (jobs s)\<rparr>)"
  by (simp add: complete_job_def job_result_def emit_def Let_def)

lemma complete_job_ok_fields:
  assumes "error_result x = None"
  shows "jobs (snd (complete_job x s)) = remove1 x (jobs s)"
    and "clock (snd (complete_job x s)) = clock s"
    and "trace (snd (complete_job x s)) =
      trace s @ [Call (Api_result (job_id x)),
        Info (Completed_job (job_id x) (source_uri x) (destination x))]"
  by (simp_all add: complete_job_ok [OF assms])

lemma poll_scan_stop: "\<not> i < length (jobs s) \<Longrightarrow> poll_scan i s = (None, s)"
  by (subst poll_scan.simps) simp

lemma poll_scan_pending:
  "i < length (jobs s) \<Longrightarrow> \<not> job_done (jobs s ! i) (clock s) \<Longrightarrow>
     poll_scan i s = poll_scan (Suc i) (snd (poll_done (jobs s ! i) s))"
  by (subst poll_scan.simps) (simp add: poll_done_eq)

lemma poll_scan_failed:
  "i < length (jobs s) \<Longrightarrow> job_done (jobs s ! i) (clock s) \<Longrightarrow>
   error_result (jobs s ! i) = Some p \<Longrightarrow>
     poll_scan i s =
       (Some (JobError p),
        s\<lparr>trace := trace s @ [Call (Api_done (job_id (jobs s ! i)) True),
             Call (Api_result (job_id (jobs s ! i)))],
          clock := Suc (clock s)\<rparr>)"
  by (subst poll_scan.simps) (simp add: poll_done_eq complete_job_failed Let_def)

lemma poll_scan_completed:
  "i < length (jobs s) \<Longrightarrow> job_done (jobs s ! i) (clock s) \<Longrightarrow>
   error_result (jobs s ! i) = None \<Longrightarrow>
     poll_scan i s =
       poll_scan (Suc i) (snd (complete_job (jobs s ! i) (snd (poll_done (jobs s ! i) s))))"
  by (subst poll_scan.simps) (simp add: poll_done_eq complete_job_ok Let_def)

lemma poll_scan_induct [case_names stop pending failed completed]:
  assumes stop: "\<And>i s. \<not> i < length (jobs s) \<Longrightarrow> P i s"
    and pending: "\<And>i s. i < length (jobs s) \<Longrightarrow> \<not> job_done (jobs s ! i) (clock s) \<Longrightarrow>
        P (Suc i) (snd (poll_done (jobs s ! i) s)) \<Longrightarrow> P i s"
    and failed: "\<And>i s p. i < length (jobs s) \<Longrightarrow> job_done (jobs s ! i) (clock s) \<Longrightarrow>
        error_result (jobs s ! i) = Some p \<Longrightarrow> P i s"
    and completed: "\<And>i s. i < length (jobs s) \<Longrightarrow> job_done (jobs s ! i) (clock s) \<Longrightarrow>
        error_result (jobs s ! i) = None \<Longrightarrow>
        P (Suc i) (snd (complete_job (jobs s ! i) (snd (poll_done (jobs s ! i) s)))) \<Longrightarrow> P i s"
  shows "P i s"
proof (induction i s rule: poll_scan.induct)
  case (1 i s)
  show ?case
  proof (cases "i < length (jobs s)")
    case False
    then show ?thesis by (rule stop)
  next
    case True
    show ?thesis
    proof (cases "job_done (jobs s ! i) (clock s)")
      case False
      have "P (i + 1) (snd (poll_done (jobs s ! i) s))"
        using False by (intro "1.IH"(1) [OF True refl refl]) (simp_all add: poll_done_eq)
      with True False show ?thesis by (simp add: pending)
    next
      case d: True
      show ?thesis
      proof (cases "error_result (jobs s ! i)")
        case (Some p)
        from True d Some show ?thesis by (rule failed)
      next
        case None
        have "P (i + 1) (snd (complete_job (jobs s ! i) (snd (poll_done (jobs s ! i) s))))"
        proof (rule "1.IH"(2) [OF True refl refl])
          show "(job_done (jobs s ! i) (clock s), snd (poll_done (jobs s ! i) s)) =
              poll_done (jobs s ! i) s"
            by (simp add: poll_done_eq)
          show "\<not> \<not> job_done (jobs s ! i) (clock s)"
            using d by simp
          show "(None, snd (complete_job (jobs s ! i) (snd (poll_done (jobs s ! i) s)))) =
              complete_job (jobs s ! i) (snd (poll_done (jobs s ! i) s))"
            by (simp add: complete_job_ok [OF None])
          show "None = None" ..
        qed
        with True d None show ?thesis by (simp add: completed)
      qed
    qed
  qed
qed

lemma poll_scan_jobs_subset: "set (jobs (snd (poll_scan i s))) \<subseteq> set (jobs s)"
proof (induction i s rule: poll_scan_induct)
  case (stop i s)
  then show ?case by (simp add: poll_scan_stop)
next
  case (pending i s)
  then show ?case by (simp add: poll_scan_pending poll_done_fields)
next
  case (failed i s p)
  then show ?case by (simp add: poll_scan_failed)
next
  case (completed i s)
  have "set (remove1 (jobs s ! i) (jobs s)) \<subseteq> set (jobs s)"
    by (rule set_remove1_subset)
  with completed show ?case
    by (auto simp add: poll_scan_completed poll_done_fields complete_job_ok_fields)
qed

lemma poll_scan_length_le: "length (jobs (snd (poll_scan i s))) \<le> length (jobs s)"
proof (induction i s rule: poll_scan_induct)
  case (stop i s)
  then show ?case by (simp add: poll_scan_stop)
next
  case (pending i s)
  then show ?case by (simp add: poll_scan_pending poll_done_fields)
next
  case (failed i s p)
  then show ?case by (simp add: poll_scan_failed)
next
  case (completed i s)
  then show ?case
    by (simp add: poll_scan_completed poll_done_fields complete_job_ok_fields length_remove1)
qed

lemma poll_scan_clock_mono: "clock s \<le> clock (snd (poll_scan i s))"
proof (induction i s rule: poll_scan_induct)
  case (stop i s)
  then show ?case by (simp add: poll_scan_stop)
next
  case (pending i s)
  then show ?case by (simp add: poll_scan_pending poll_done_fields)
next
  case (failed i s p)
  then show ?case by (simp add: poll_scan_failed)
next
  case (completed i s)
  then show ?case
    by (simp add: poll_scan_completed poll_done_fields complete_job_ok_fields)
qed

lemma poll_scan_clock_step: "i < length (jobs s) \<Longrightarrow> clock s < clock (snd (poll_scan i s))"
proof (induction i s rule: poll_scan_induct)
  case (stop i s)
  then show ?case by simp
next
  case (pending i s)
  with poll_scan_clock_mono [of "snd (poll_done (jobs s ! i) s)" "Suc i"]
  show ?case by (simp add: poll_scan_pending poll_done_fields)
next
  case (failed i s p)
  then show ?case by (simp add: poll_scan_failed)
next
  case (completed i s)
  with poll_scan_clock_mono
    [of "snd (complete_job (jobs s ! i) (snd (poll_done (jobs s ! i) s)))" "Suc i"]
  show ?case by (simp add: poll_scan_completed poll_done_fields complete_job_ok_fields)
qed

lemma job_done_None: "done_from j = None \<Longrightarrow> \<not> job_done j t"
  by (simp add: job_done_def)

text \<open>A job that never reports completion, or that failed, is never taken off the list.\<close>

lemma poll_scan_keeps:
  "j \<in> set (jobs s) \<Longrightarrow> done_from j = None \<or> error_result j \<noteq> None \<Longrightarrow>
     j \<in> set (jobs (snd (poll_scan i s)))"
proof (induction i s rule: poll_scan_induct)
  case (stop i s)
  then show ?case by (simp add: poll_scan_stop)
next
  case (pending i s)
  then show ?case by (simp add: poll_scan_pending poll_done_fields)
next
  case (failed i s p)
  then show ?case by (simp add: poll_scan_failed)
next
  case (completed i s)
  from completed.hyps(2,3) completed.prems(2) have "jobs s ! i \<noteq> j"
    using job_done_None by auto
  with completed.prems(1) have "j \<in> set (remove1 (jobs s ! i) (jobs s))"
    by simp
  with completed show ?case
    by (simp add: poll_scan_completed poll_done_fields complete_job_ok_fields)
qed

lemma poll_scan_trace_ex: "\<exists>es. trace (snd (poll_scan i s)) = trace s @ es"
proof (induction i s rule: poll_scan_induct)
  case (stop i s)
  then show ?case by (simp add: poll_scan_stop)
next
  case (pending i s)
  then show ?case by (auto simp add: poll_scan_pending poll_done_fields)
next
  case (failed i s p)
  then show ?case by (simp add: poll_scan_failed)
next
  case (completed i s)
  then show ?case
    by (auto simp add: poll_scan_completed poll_done_fields complete_job_ok_fields)
qed

lemma poll_scan_trace: "trace (snd (poll_scan i s)) = trace s @ scan_events i s"
  using poll_scan_trace_ex [of i s] by (auto simp add: scan_events_def)

lemma scan_events_stop: "\<not> i < length (jobs s) \<Longrightarrow> scan_events i s = []"
  by (simp add: scan_events_def poll_scan_stop)

lemma scan_events_pending:
  assumes "i < length (jobs s)" and "\<not> job_done (jobs s ! i) (clock s)"
  shows "scan_events i s =
    Call (Api_done (job_id (jobs s ! i)) False) #
      scan_events (Suc i) (snd (poll_done (jobs s ! i) s))"
proof -
  have "trace (snd (poll_scan i s)) =
      trace (snd (poll_done (jobs s ! i) s)) @ scan_events (Suc i) (snd (poll_done (jobs s ! i) s))"
    using assms by (simp add: poll_scan_pending poll_scan_trace)
  then show ?thesis
    using assms by (simp add: scan_events_def [of i s] poll_done_fields)
qed

lemma scan_events_failed:
  assumes "i < length (jobs s)" and "job_done (jobs s ! i) (clock s)"
    and "error_result (jobs s ! i) = Some p"
  shows "scan_events i s =
    [Call (Api_done (job_id (jobs s ! i)) True), Call (Api_result (job_id (jobs s ! i)))]"
  using assms by (simp add: scan_events_def poll_scan_failed)

lemma scan_events_completed:
  assumes "i < length (jobs s)" and "job_done (jobs s ! i) (clock s)"
    and "error_result (jobs s ! i) = None"
  shows "scan_events i s =
    Call (Api_done (job_id (jobs s ! i)) True) # Call (Api_result (job_id (jobs s ! i))) #
      Info (Completed_job (job_id (jobs s ! i)) (source_uri (jobs s ! i))
        (destination (jobs s ! i))) #
      scan_events (Suc i) (snd (complete_job (jobs s ! i) (snd (poll_done (jobs s ! i) s))))"
proof -
  let ?s2 = "snd (complete_job (jobs s ! i) (snd (poll_done (jobs s ! i) s)))"
  have "trace (snd (poll_scan i s)) = trace ?s2 @ scan_events (Suc i) ?s2"
    using assms by (simp add: poll_scan_completed poll_scan_trace)
  then show ?thesis
    using assms
    by (simp add: scan_events_def [of i s] poll_done_fields complete_job_ok_fields)
qed

text \<open>The error lines of lines 113 to 116 are never written.\<close>

lemma scan_events_no_error_line: "Error m \<notin> set (scan_events i s)"
proof (induction i s rule: poll_scan_induct)
  case (stop i s)
  then show ?case by (simp add: scan_events_stop)
next
  case (pending i s)
  then show ?case by (simp add: scan_events_pending)
next
  case (failed i s p)
  then show ?case by (simp add: scan_events_failed)
next
  case (completed i s)
  then show ?case by (simp add: scan_events_completed)
qed

text \<open>A scan raises only the error of a failed job of the list.\<close>

lemma poll_scan_raises:
  "fst (poll_scan i s) = Some e \<Longrightarrow>
     \<exists>j p. j \<in> set (jobs s) \<and> error_result j = Some p \<and> e = JobError p"
proof (induction i s rule: poll_scan_induct)
  case (stop i s)
  then show ?case by (simp add: poll_scan_stop)
next
  case (pending i s)
  then show ?case by (simp add: poll_scan_pending poll_done_fields)
next
  case (failed i s p)
  then have "e = JobError p" by (simp add: poll_scan_failed)
  moreover have "jobs s ! i \<in> set (jobs s)" using failed.hyps(1) by simp
  ultimately show ?case using failed.hyps(3) by blast
next
  case (completed i s)
  then have "\<exists>j p. j \<in> set (remove1 (jobs s ! i) (jobs s)) \<and> error_result j = Some p \<and>
      e = JobError p"
    by (simp add: poll_scan_completed poll_done_fields complete_job_ok_fields)
  then show ?case using set_remove1_subset [of "jobs s ! i" "jobs s"] by blast
qed

lemma poll_scan_no_failure:
  "\<forall>j \<in> set (jobs s). error_result j = None \<Longrightarrow> fst (poll_scan i s) = None"
proof (cases "fst (poll_scan i s)")
  case None
  then show ?thesis .
next
  case (Some e)
  assume "\<forall>j \<in> set (jobs s). error_result j = None"
  with poll_scan_raises [OF Some] show ?thesis by auto
qed

lemma poll_scan_done_shrinks:
  assumes "i < length (jobs s)" and "job_done (jobs s ! i) (clock s)"
    and "error_result (jobs s ! i) = None"
  shows "length (jobs (snd (poll_scan i s))) < length (jobs s)"
proof -
  have "length (jobs (snd (poll_scan i s))) \<le> length (remove1 (jobs s ! i) (jobs s))"
    using assms
      poll_scan_length_le
        [of "Suc i" "snd (complete_job (jobs s ! i) (snd (poll_done (jobs s ! i) s)))"]
    by (simp add: poll_scan_completed poll_done_fields complete_job_ok_fields)
  also have "\<dots> < length (jobs s)"
    using assms(1) by (simp add: length_remove1)
  finally show ?thesis .
qed

lemma completed_scan_pending:
  "i < length (jobs s) \<Longrightarrow> \<not> job_done (jobs s ! i) (clock s) \<Longrightarrow>
     completed (scan_events i s) = completed (scan_events (Suc i) (snd (poll_done (jobs s ! i) s)))"
  by (simp add: scan_events_pending)

lemma completed_scan_completed:
  "i < length (jobs s) \<Longrightarrow> job_done (jobs s ! i) (clock s) \<Longrightarrow>
   error_result (jobs s ! i) = None \<Longrightarrow>
     completed (scan_events i s) =
       job_id (jobs s ! i) #
       completed (scan_events (Suc i)
         (snd (complete_job (jobs s ! i) (snd (poll_done (jobs s ! i) s)))))"
  by (simp add: scan_events_completed)

text \<open>A scan that does not raise: what it sees completing is what it removes.\<close>

lemma poll_scan_count:
  "fst (poll_scan i s) = None \<Longrightarrow>
     length (jobs (snd (poll_scan i s))) + length (completed (scan_events i s)) = length (jobs s)"
proof (induction i s rule: poll_scan_induct)
  case (stop i s)
  then show ?case by (simp add: poll_scan_stop scan_events_stop)
next
  case (pending i s)
  then show ?case
    by (simp add: poll_scan_pending completed_scan_pending poll_done_fields)
next
  case (failed i s p)
  then show ?case by (simp add: poll_scan_failed)
next
  case (completed i s)
  then show ?case
    by (simp add: poll_scan_completed completed_scan_completed poll_done_fields
        complete_job_ok_fields length_remove1)
qed

lemma poll_scan_result_retrieved:
  "k \<in> set (completed (scan_events i s)) \<Longrightarrow> Call (Api_result k) \<in> set (scan_events i s)"
proof (induction i s rule: poll_scan_induct)
  case (stop i s)
  then show ?case by (simp add: scan_events_stop)
next
  case (pending i s)
  then show ?case by (simp add: completed_scan_pending scan_events_pending)
next
  case (failed i s p)
  then show ?case by (simp add: scan_events_failed)
next
  case (completed i s)
  then show ?case by (auto simp add: scan_events_completed)
qed

lemma distinct_ids_remove1:
  "distinct (map job_id xs) \<Longrightarrow> distinct (map job_id (remove1 x xs))"
  using set_remove1_subset [of x xs]
  by (auto simp add: distinct_map intro: inj_on_subset)

lemma distinct_ids_neq:
  "distinct (map job_id xs) \<Longrightarrow> x \<in> set xs \<Longrightarrow> y \<in> set xs \<Longrightarrow> job_id x = job_id y \<Longrightarrow> x = y"
  by (meson distinct_map inj_on_def)

lemma poll_scan_removed_iff:
  "fst (poll_scan i s) = None \<Longrightarrow> distinct (map job_id (jobs s)) \<Longrightarrow> j \<in> set (jobs s) \<Longrightarrow>
     j \<in> set (jobs (snd (poll_scan i s))) \<longleftrightarrow> job_id j \<notin> set (completed (scan_events i s))"
proof (induction i s rule: poll_scan_induct)
  case (stop i s)
  then show ?case by (simp add: poll_scan_stop scan_events_stop)
next
  case (pending i s)
  then show ?case
    by (simp add: poll_scan_pending completed_scan_pending poll_done_fields)
next
  case (failed i s p)
  then show ?case by (simp add: poll_scan_failed)
next
  case (completed i s)
  let ?x = "jobs s ! i"
  let ?s2 = "snd (complete_job ?x (snd (poll_done ?x s)))"
  have d: "distinct (jobs s)"
    using completed.prems(2) by (simp add: distinct_map)
  have x: "?x \<in> set (jobs s)"
    using completed.hyps(1) by simp
  have js: "jobs ?s2 = remove1 ?x (jobs s)"
    by (simp add: complete_job_ok_fields [OF completed.hyps(3)] poll_done_fields)
  have d2: "distinct (map job_id (jobs ?s2))"
    unfolding js by (rule distinct_ids_remove1 [OF completed.prems(2)])
  have n2: "fst (poll_scan (Suc i) ?s2) = None"
    using completed.prems(1) completed.hyps by (simp add: poll_scan_completed)
  show ?case
  proof (cases "j = ?x")
    case True
    have "?x \<notin> set (jobs ?s2)"
      unfolding js using d by simp
    with poll_scan_jobs_subset [of "Suc i" ?s2]
    have "?x \<notin> set (jobs (snd (poll_scan (Suc i) ?s2)))"
      by blast
    with True completed.hyps show ?thesis
      by (simp add: poll_scan_completed completed_scan_completed)
  next
    case False
    with completed.prems(3) have m: "j \<in> set (jobs ?s2)"
      unfolding js by simp
    have n: "job_id j \<noteq> job_id ?x"
      using distinct_ids_neq [OF completed.prems(2) completed.prems(3) x] False by blast
    from completed.IH [OF n2 d2 m] n completed.hyps show ?thesis
      by (simp add: poll_scan_completed completed_scan_completed)
  qed
qed

lemma poll_loop_Suc:
  "poll_loop (Suc n) s =
     (case fst (poll_scan 0 s) of
        Some e \<Rightarrow> (Raised e, snd (poll_scan 0 s))
      | None \<Rightarrow>
          if jobs (snd (poll_scan 0 s)) = [] then (Returned, snd (poll_scan 0 s))
          else poll_loop n (snd (poll_scan 0 s)))"
  by (cases "poll_scan 0 s") (simp split: option.splits)

lemma poll_loop_empty: "jobs s = [] \<Longrightarrow> poll_loop (Suc n) s = (Returned, s)"
  by (simp add: poll_loop_Suc poll_scan_stop del: poll_loop.simps)

lemma poll_loop_trace_ex: "\<exists>es. trace (snd (poll_loop n s)) = trace s @ es"
proof (induction n arbitrary: s)
  case 0
  then show ?case by simp
next
  case (Suc n)
  from poll_scan_trace_ex [of 0 s] obtain es1
    where 1: "trace (snd (poll_scan 0 s)) = trace s @ es1" by blast
  from Suc [of "snd (poll_scan 0 s)"] obtain es2
    where 2: "trace (snd (poll_loop n (snd (poll_scan 0 s)))) = trace (snd (poll_scan 0 s)) @ es2"
    by blast
  show ?case
    using 1 2 by (auto simp add: poll_loop_Suc simp del: poll_loop.simps split: option.splits)
qed

lemma poll_loop_no_error_line:
  "Error m \<notin> set (drop (length (trace s)) (trace (snd (poll_loop n s))))"
proof (induction n arbitrary: s)
  case 0
  then show ?case by simp
next
  case (Suc n)
  let ?s1 = "snd (poll_scan 0 s)"
  have 1: "trace ?s1 = trace s @ scan_events 0 s"
    by (rule poll_scan_trace)
  have e1: "Error m \<notin> set (scan_events 0 s)"
    by (rule scan_events_no_error_line)
  from poll_loop_trace_ex [of n ?s1] obtain es2
    where 2: "trace (snd (poll_loop n ?s1)) = trace ?s1 @ es2" by blast
  have e2: "Error m \<notin> set es2"
    using Suc [of ?s1] 2 by simp
  show ?case
    using 1 2 e1 e2
    by (auto simp add: poll_loop_Suc simp del: poll_loop.simps split: option.splits)
qed

lemma poll_loop_keeps:
  "j \<in> set (jobs s) \<Longrightarrow> done_from j = None \<or> error_result j \<noteq> None \<Longrightarrow>
     j \<in> set (jobs (snd (poll_loop n s))) \<and> fst (poll_loop n s) \<noteq> Returned"
proof (induction n arbitrary: s)
  case 0
  then show ?case by simp
next
  case (Suc n)
  from poll_scan_keeps [OF Suc.prems] have m: "j \<in> set (jobs (snd (poll_scan 0 s)))" .
  then have "jobs (snd (poll_scan 0 s)) \<noteq> []" by auto
  with Suc.IH [OF m Suc.prems(2)] m show ?case
    by (simp add: poll_loop_Suc del: poll_loop.simps split: option.splits)
qed

lemma poll_loop_returned_empty: "poll_loop n s = (Returned, s') \<Longrightarrow> jobs s' = []"
proof (induction n arbitrary: s)
  case 0
  then show ?case by simp
next
  case (Suc n)
  then show ?case
    by (cases "jobs (snd (poll_scan 0 s)) = []")
      (auto simp add: poll_loop_Suc simp del: poll_loop.simps split: option.splits)
qed

lemma poll_loop_raised:
  "fst (poll_loop n s) = Raised e \<Longrightarrow>
     \<exists>j p. j \<in> set (jobs s) \<and> error_result j = Some p \<and> e = JobError p"
proof (induction n arbitrary: s)
  case 0
  then show ?case by simp
next
  case (Suc n)
  show ?case
  proof (cases "fst (poll_scan 0 s)")
    case (Some e')
    with Suc.prems have "e' = e" by (simp add: poll_loop_Suc del: poll_loop.simps)
    with Some poll_scan_raises [of 0 s e] show ?thesis by simp
  next
    case None
    with Suc.prems have "fst (poll_loop n (snd (poll_scan 0 s))) = Raised e"
      by (simp add: poll_loop_Suc del: poll_loop.simps split: if_splits)
    from Suc.IH [OF this] poll_scan_jobs_subset [of 0 s] show ?thesis by blast
  qed
qed

text \<open>When every job reports completion from some poll on, the loop ends.\<close>

lemma poll_loop_ends:
  "\<forall>j \<in> set (jobs s). \<exists>d. done_from j = Some d \<and> d \<le> T \<Longrightarrow>
   (T - clock s) + length (jobs s) \<le> n \<Longrightarrow> fst (poll_loop (Suc n) s) \<noteq> Polling"
proof (induction n arbitrary: s)
  case 0
  then have "jobs s = []" by simp
  then show ?case by (simp add: poll_loop_empty del: poll_loop.simps)
next
  case (Suc n)
  let ?s1 = "snd (poll_scan 0 s)"
  show ?case
  proof (cases "fst (poll_scan 0 s)")
    case (Some e)
    then show ?thesis by (simp add: poll_loop_Suc del: poll_loop.simps)
  next
    case None
    show ?thesis
    proof (cases "jobs ?s1 = []")
      case True
      with None show ?thesis by (simp add: poll_loop_Suc del: poll_loop.simps)
    next
      case False
      have ne: "0 < length (jobs s)"
        using False poll_scan_length_le [of 0 s] by (cases "jobs s") auto
      have b1: "\<forall>j \<in> set (jobs ?s1). \<exists>d. done_from j = Some d \<and> d \<le> T"
        using Suc.prems(1) poll_scan_jobs_subset [of 0 s] by blast
      have m: "(T - clock ?s1) + length (jobs ?s1) \<le> n"
      proof (cases "clock s < T")
        case True
        have "clock s < clock ?s1" by (rule poll_scan_clock_step [OF ne])
        with True have "T - clock ?s1 < T - clock s" by linarith
        with poll_scan_length_le [of 0 s] Suc.prems(2) show ?thesis by linarith
      next
        case late: False
        have "jobs s ! 0 \<in> set (jobs s)" using ne by simp
        with Suc.prems(1) obtain d where "done_from (jobs s ! 0) = Some d" "d \<le> T" by blast
        with late have dn: "job_done (jobs s ! 0) (clock s)" by (simp add: job_done_def)
        have ok: "error_result (jobs s ! 0) = None"
        proof (cases "error_result (jobs s ! 0)")
          case None
          then show ?thesis .
        next
          case (Some p)
          from poll_scan_failed [OF ne dn Some] \<open>fst (poll_scan 0 s) = None\<close>
          show ?thesis by simp
        qed
        from poll_scan_done_shrinks [OF ne dn ok]
        have "length (jobs ?s1) < length (jobs s)" .
        moreover have "T - clock ?s1 \<le> T - clock s"
          using poll_scan_clock_mono [of s 0] by linarith
        ultimately show ?thesis using Suc.prems(2) by linarith
      qed
      from Suc.IH [OF b1 m] None False show ?thesis
        by (simp add: poll_loop_Suc [of "Suc n"] del: poll_loop.simps)
    qed
  qed
qed

lemma done_bound_exists:
  "\<forall>j \<in> set js. done_from j \<noteq> None \<Longrightarrow> \<exists>T. \<forall>j \<in> set js. \<exists>d. done_from j = Some d \<and> d \<le> T"
proof (induction js)
  case Nil
  then show ?case by simp
next
  case (Cons x js)
  then obtain T where T: "\<forall>j \<in> set js. \<exists>d. done_from j = Some d \<and> d \<le> T" by auto
  from Cons.prems obtain d where d: "done_from x = Some d" by auto
  have "\<forall>j \<in> set (x # js). \<exists>d'. done_from j = Some d' \<and> d' \<le> max T d"
  proof
    fix j assume "j \<in> set (x # js)"
    then consider "j = x" | "j \<in> set js" by auto
    then show "\<exists>d'. done_from j = Some d' \<and> d' \<le> max T d"
    proof cases
      case 1
      with d show ?thesis by simp
    next
      case 2
      with T obtain d' where "done_from j = Some d'" "d' \<le> T" by blast
      then show ?thesis by (simp add: max.coboundedI1)
    qed
  qed
  then show ?case by blast
qed

text \<open>
  Without a failed job the loop does what the completion law says: a scan shortens the
  list by the number of completions it sees, the loop returns if and only if every job
  reports completion from some poll on, and each completion seen is followed by the
  retrieval of the result and the removal of the handle.
\<close>

lemma poll_loop_completion_without_failures:
  assumes ok: "\<forall>j \<in> set (jobs s). error_result j = None"
  shows "fst (poll_scan 0 s) = None \<and>
   trace (snd (poll_scan 0 s)) = trace s @ scan_events 0 s \<and>
   length (jobs (snd (poll_scan 0 s))) + length (completed (scan_events 0 s)) = length (jobs s) \<and>
   (completed (scan_events 0 s) \<noteq> [] \<longrightarrow>
      length (jobs (snd (poll_scan 0 s))) < length (jobs s)) \<and>
   ((\<exists>n s'. poll_loop n s = (Returned, s')) \<longleftrightarrow> (\<forall>j \<in> set (jobs s). done_from j \<noteq> None)) \<and>
   (\<forall>n s'. poll_loop n s = (Returned, s') \<longrightarrow> jobs s' = []) \<and>
   (\<forall>k \<in> set (completed (scan_events 0 s)). Call (Api_result k) \<in> set (scan_events 0 s)) \<and>
   (distinct (map job_id (jobs s)) \<longrightarrow>
      (\<forall>j \<in> set (jobs s).
         j \<in> set (jobs (snd (poll_scan 0 s))) \<longleftrightarrow>
         job_id j \<notin> set (completed (scan_events 0 s))))"
proof -
  have 0: "fst (poll_scan 0 s) = None"
    by (rule poll_scan_no_failure [OF ok])
  have 1: "trace (snd (poll_scan 0 s)) = trace s @ scan_events 0 s"
    by (rule poll_scan_trace)
  have 2: "length (jobs (snd (poll_scan 0 s))) + length (completed (scan_events 0 s)) =
      length (jobs s)"
    by (rule poll_scan_count [OF 0])
  have 3: "completed (scan_events 0 s) \<noteq> [] \<longrightarrow>
      length (jobs (snd (poll_scan 0 s))) < length (jobs s)"
  proof
    assume "completed (scan_events 0 s) \<noteq> []"
    then have "0 < length (completed (scan_events 0 s))" by simp
    with 2 show "length (jobs (snd (poll_scan 0 s))) < length (jobs s)" by linarith
  qed
  have 4: "(\<exists>n s'. poll_loop n s = (Returned, s')) \<longleftrightarrow> (\<forall>j \<in> set (jobs s). done_from j \<noteq> None)"
  proof
    assume "\<exists>n s'. poll_loop n s = (Returned, s')"
    then obtain n s' where r: "poll_loop n s = (Returned, s')" by blast
    show "\<forall>j \<in> set (jobs s). done_from j \<noteq> None"
    proof (rule ccontr)
      assume "\<not> (\<forall>j \<in> set (jobs s). done_from j \<noteq> None)"
      then obtain j where "j \<in> set (jobs s)" "done_from j = None" by blast
      then have "fst (poll_loop n s) \<noteq> Returned"
        using poll_loop_keeps [of j s n] by blast
      with r show False by simp
    qed
  next
    assume "\<forall>j \<in> set (jobs s). done_from j \<noteq> None"
    from done_bound_exists [OF this] obtain T
      where "\<forall>j \<in> set (jobs s). \<exists>d. done_from j = Some d \<and> d \<le> T" by blast
    from poll_loop_ends [OF this order_refl]
    have np: "fst (poll_loop (Suc (T - clock s + length (jobs s))) s) \<noteq> Polling" .
    have nr: "fst (poll_loop (Suc (T - clock s + length (jobs s))) s) \<noteq> Raised e" for e
      using poll_loop_raised [of "Suc (T - clock s + length (jobs s))" s e] ok by auto
    from np nr have "fst (poll_loop (Suc (T - clock s + length (jobs s))) s) = Returned"
      by (cases "fst (poll_loop (Suc (T - clock s + length (jobs s))) s)") auto
    then show "\<exists>n s'. poll_loop n s = (Returned, s')"
      by (metis prod.collapse)
  qed
  have 5: "\<forall>n s'. poll_loop n s = (Returned, s') \<longrightarrow> jobs s' = []"
    using poll_loop_returned_empty by blast
  have 6: "\<forall>k \<in> set (completed (scan_events 0 s)). Call (Api_result k) \<in> set (scan_events 0 s)"
    using poll_scan_result_retrieved by blast
  have 7: "distinct (map job_id (jobs s)) \<longrightarrow>
      (\<forall>j \<in> set (jobs s).
         j \<in> set (jobs (snd (poll_scan 0 s))) \<longleftrightarrow>
         job_id j \<notin> set (completed (scan_events 0 s)))"
    using poll_scan_removed_iff [OF 0] by blast
  from 0 1 2 3 4 5 6 7 show ?thesis by blast
qed

text \<open>
  With a failed job in the list the loop never returns: the job stays in the list, no
  error line is logged, and when every job reports completion from some poll on the loop
  is left by the exception of \<^verbatim>\<open>load_job.result()\<close>.
\<close>

lemma poll_loop_with_failed_job:
  assumes "j \<in> set (jobs s)" and "error_result j = Some p"
  shows "(\<forall>n. fst (poll_loop n s) \<noteq> Returned \<and> j \<in> set (jobs (snd (poll_loop n s))) \<and>
            (\<forall>m. Error m \<notin> set (drop (length (trace s)) (trace (snd (poll_loop n s)))))) \<and>
         ((\<forall>j \<in> set (jobs s). done_from j \<noteq> None) \<longrightarrow>
            (\<exists>n q. fst (poll_loop n s) = Raised (JobError q)))"
proof -
  have 1: "\<forall>n. fst (poll_loop n s) \<noteq> Returned \<and> j \<in> set (jobs (snd (poll_loop n s))) \<and>
            (\<forall>m. Error m \<notin> set (drop (length (trace s)) (trace (snd (poll_loop n s)))))"
    using poll_loop_keeps [OF assms(1)] assms(2) poll_loop_no_error_line by simp
  have 2: "(\<forall>j \<in> set (jobs s). done_from j \<noteq> None) \<longrightarrow>
            (\<exists>n q. fst (poll_loop n s) = Raised (JobError q))"
  proof
    assume "\<forall>j \<in> set (jobs s). done_from j \<noteq> None"
    from done_bound_exists [OF this] obtain T
      where "\<forall>j \<in> set (jobs s). \<exists>d. done_from j = Some d \<and> d \<le> T" by blast
    from poll_loop_ends [OF this order_refl]
    have np: "fst (poll_loop (Suc (T - clock s + length (jobs s))) s) \<noteq> Polling" .
    from 1 have nr: "fst (poll_loop (Suc (T - clock s + length (jobs s))) s) \<noteq> Returned"
      by blast
    from np nr obtain e where e: "fst (poll_loop (Suc (T - clock s + length (jobs s))) s) = Raised e"
      by (cases "fst (poll_loop (Suc (T - clock s + length (jobs s))) s)") auto
    from poll_loop_raised [OF e] obtain q where "e = JobError q" by blast
    with e show "\<exists>n q. fst (poll_loop n s) = Raised (JobError q)" by blast
  qed
  from 1 2 show ?thesis by blast
qed

lemmas poll_defs = poll_scan.simps poll_done_eq complete_job_def job_result_def emit_def
  job_done_def Let_def

section \<open>Facts about the walker\<close>

lemma takeWhile_replicate: "takeWhile (\<lambda>c. c = x) xs = replicate (length (takeWhile (\<lambda>c. c = x) xs)) x"
  by (induction xs) simp_all

lemma rstrip_slash_split:
  "s = rstrip_slash s @ replicate (length (takeWhile (\<lambda>c. c = CHR ''/'') (rev s))) CHR ''/''"
proof -
  have "rev s = takeWhile (\<lambda>c. c = CHR ''/'') (rev s) @ dropWhile (\<lambda>c. c = CHR ''/'') (rev s)"
    by simp
  then have "rev (rev s) = rev (dropWhile (\<lambda>c. c = CHR ''/'') (rev s)) @
      rev (takeWhile (\<lambda>c. c = CHR ''/'') (rev s))"
    by (metis rev_append)
  moreover have "rev (takeWhile (\<lambda>c. c = CHR ''/'') (rev s)) =
      replicate (length (takeWhile (\<lambda>c. c = CHR ''/'') (rev s))) CHR ''/''"
    using takeWhile_replicate [of "CHR ''/''" "rev s"] by (metis rev_replicate)
  ultimately show ?thesis by (simp add: rstrip_slash_def)
qed

lemma rstrip_slash_last: "rstrip_slash s \<noteq> [] \<Longrightarrow> last (rstrip_slash s) \<noteq> CHR ''/''"
  using hd_dropWhile [of "\<lambda>c. c = CHR ''/''" "rev s"]
  by (simp add: rstrip_slash_def last_rev)

lemma ensure_dataset_trace:
  "\<exists>es. trace (snd (ensure_dataset c ref s)) = trace s @ Call (Api_get_dataset ref) # es"
  by (auto simp add: ensure_dataset_def emit_def Let_def split: sum.splits)

lemma ensure_dataset_jobs: "jobs (snd (ensure_dataset c ref s)) = jobs s"
  by (auto simp add: ensure_dataset_def emit_def Let_def split: sum.splits)

lemma list_files_trace: "\<exists>es. trace (snd (list_files c b p d s)) = trace s @ es"
  by (auto simp add: list_files_def emit_def Let_def split: sum.splits option.splits)

lemma submit_loop_trace: "\<exists>es. trace (snd (submit_loop c ds tp snap files s)) = trace s @ es"
proof -
  obtain r s' where e: "submit_loop c ds tp snap files s = (r, s')"
    by (cases "submit_loop c ds tp snap files s")
  from submit_loop_step [OF e] obtain es js where "loop_adds c ds tp snap files r s s' es js"
    by blast
  from loop_adds_trace [OF this] e show ?thesis by simp
qed

lemma load_prefix_to_dataset_trace:
  "\<exists>es. trace (snd (load_prefix_to_dataset c fuel b p ds tp s)) =
     trace s @ Call (Api_get_dataset ds) # es"
proof -
  obtain r1 s1 where e: "ensure_dataset c ds (s\<lparr>jobs := []\<rparr>) = (r1, s1)"
    by (cases "ensure_dataset c ds (s\<lparr>jobs := []\<rparr>)")
  from ensure_dataset_trace [of c ds "s\<lparr>jobs := []\<rparr>"] e obtain es1
    where t1: "trace s1 = trace s @ Call (Api_get_dataset ds) # es1"
    by auto
  show ?thesis
  proof (cases r1)
    case (Inl err)
    with e t1 show ?thesis by (simp add: load_prefix_to_dataset_def)
  next
    case (Inr dataset)
    let ?s2 = "emit (Call (Api_list_tables ds)) s1"
    have t2: "trace ?s2 = trace s @ Call (Api_get_dataset ds) # es1 @ [Call (Api_list_tables ds)]"
      using t1 by (simp add: emit_def)
    show ?thesis
    proof (cases "list_tables c ds")
      case (Inl err)
      with e Inr t2 show ?thesis by (simp add: load_prefix_to_dataset_def Let_def)
    next
      case tabs: (Inr all_tables)
      obtain r3 s3 where f: "list_files c b p None ?s2 = (r3, s3)"
        by (cases "list_files c b p None ?s2")
      from list_files_trace [of c b p None ?s2] f obtain es3
        where t3: "trace s3 = trace ?s2 @ es3" by auto
      show ?thesis
      proof (cases r3)
        case (Inl err)
        with e Inr tabs f t2 t3 show ?thesis
          by (simp add: load_prefix_to_dataset_def Let_def)
      next
        case files: (Inr files)
        obtain r4 s4 where g: "submit_loop c ds tp all_tables files s3 = (r4, s4)"
          by (cases "submit_loop c ds tp all_tables files s3")
        from submit_loop_trace [of c ds tp all_tables files s3] g obtain es4
          where t4: "trace s4 = trace s3 @ es4" by auto
        show ?thesis
        proof (cases r4)
          case (Some err)
          with e Inr tabs f files g t2 t3 t4 show ?thesis
            by (simp add: load_prefix_to_dataset_def Let_def)
        next
          case None
          from poll_loop_trace_ex [of fuel s4] obtain es5
            where t5: "trace (snd (poll_loop fuel s4)) = trace s4 @ es5" by blast
          have "load_prefix_to_dataset c fuel b p ds tp s = poll_loop fuel s4"
            using e Inr tabs f files g None by (simp add: load_prefix_to_dataset_def Let_def)
          with t2 t3 t4 t5 show ?thesis by simp
        qed
      qed
    qed
  qed
qed

lemma walk_prefixes_append:
  "walk_prefixes c fuel b tp pre s = (Returned, s1) \<Longrightarrow>
     walk_prefixes c fuel b tp (pre @ rest) s = walk_prefixes c fuel b tp rest s1"
proof (induction pre arbitrary: s)
  case Nil
  then show ?case by simp
next
  case (Cons p pre)
  obtain r2 s2 where l: "load_prefix_to_dataset c fuel b (rstrip_slash p)
      (re_sub_ident (rstrip_slash p)) tp s = (r2, s2)"
    by (cases "load_prefix_to_dataset c fuel b (rstrip_slash p)
      (re_sub_ident (rstrip_slash p)) tp s")
  show ?case
  proof (cases r2)
    case Returned
    with l Cons.prems have "walk_prefixes c fuel b tp pre s2 = (Returned, s1)"
      by (simp add: Let_def)
    from Cons.IH [OF this] l Returned show ?thesis by (simp add: Let_def)
  next
    case (Raised e)
    with l Cons.prems show ?thesis by (simp add: Let_def)
  next
    case Polling
    with l Cons.prems show ?thesis by (simp add: Let_def)
  qed
qed

lemma walk_prefixes_trace: "\<exists>es. trace (snd (walk_prefixes c fuel b tp ps s)) = trace s @ es"
proof (induction ps arbitrary: s)
  case Nil
  then show ?case by simp
next
  case (Cons p ps)
  obtain r2 s2 where l: "load_prefix_to_dataset c fuel b (rstrip_slash p)
      (re_sub_ident (rstrip_slash p)) tp s = (r2, s2)"
    by (cases "load_prefix_to_dataset c fuel b (rstrip_slash p)
      (re_sub_ident (rstrip_slash p)) tp s")
  from load_prefix_to_dataset_trace [of c fuel b "rstrip_slash p" "re_sub_ident (rstrip_slash p)" tp s]
    l obtain es1 where t1: "trace s2 = trace s @ es1" by auto
  from Cons [of s2] obtain es2
    where t2: "trace (snd (walk_prefixes c fuel b tp ps s2)) = trace s2 @ es2" by blast
  show ?case
    using l t1 t2 by (cases r2) (simp_all add: Let_def)
qed

lemma walk_prefixes_first_call:
  "\<exists>es. trace (snd (walk_prefixes c fuel b tp (p # ps) s)) =
     trace s @ Call (Api_get_dataset (re_sub_ident (rstrip_slash p))) # es"
proof -
  obtain r2 s2 where l: "load_prefix_to_dataset c fuel b (rstrip_slash p)
      (re_sub_ident (rstrip_slash p)) tp s = (r2, s2)"
    by (cases "load_prefix_to_dataset c fuel b (rstrip_slash p)
      (re_sub_ident (rstrip_slash p)) tp s")
  from load_prefix_to_dataset_trace [of c fuel b "rstrip_slash p" "re_sub_ident (rstrip_slash p)" tp s]
    l obtain es1
    where t1: "trace s2 = trace s @ Call (Api_get_dataset (re_sub_ident (rstrip_slash p))) # es1"
    by auto
  from walk_prefixes_trace [of c fuel b tp ps s2] obtain es2
    where t2: "trace (snd (walk_prefixes c fuel b tp ps s2)) = trace s2 @ es2" by blast
  show ?thesis
    using l t1 t2 by (cases r2) (simp_all add: Let_def)
qed

lemmas run_defs = load_prefix_to_dataset_def ensure_dataset_def list_files_def process_file_def
  example_client_def store_listing_def new_dataset_def assert_leading_letter_def rstrip_slash_def

section \<open>Dataset creation, dataset identifiers and job completion\<close>

text \<open>
  Claim C7. The Dataset Ensurer fetches the dataset. A dataset found is returned. A
  \<^verbatim>\<open>NotFound\<close> failure of the fetch is answered by creating a dataset object made from
  the reference alone (no property set), and the result of that creation, value or
  failure, is the result. Any other failure of the fetch is the result as it is, no
  creation is attempted, and \<^verbatim>\<open>load_prefix_to_dataset\<close> ends with that failure before any
  other call. A failure of the creation leaves \<^verbatim>\<open>load_prefix_to_dataset\<close> as well.
\<close>

theorem dataset_get_or_create:
  "(get_dataset c ref = Inr dataset \<longrightarrow>
      ensure_dataset c ref s =
        (Inr dataset, s\<lparr>trace := trace s @ [Call (Api_get_dataset ref), Info (Got_dataset dataset)]\<rparr>)) \<and>
   (get_dataset c ref = Inl NotFound \<longrightarrow>
      ensure_dataset c ref s =
        (create_dataset c (Dataset ref []),
         s\<lparr>trace := trace s @ [Call (Api_get_dataset ref), Call (Api_create_dataset (Dataset ref []))]\<rparr>)) \<and>
   (get_dataset c ref = Inl e \<and> e \<noteq> NotFound \<longrightarrow>
      ensure_dataset c ref s = (Inl e, s\<lparr>trace := trace s @ [Call (Api_get_dataset ref)]\<rparr>) \<and>
      load_prefix_to_dataset c fuel bucket_name bucket_prefix ref table_name_prefix s =
        (Raised e, s\<lparr>jobs := [], trace := trace s @ [Call (Api_get_dataset ref)]\<rparr>)) \<and>
   (get_dataset c ref = Inl NotFound \<and> create_dataset c (Dataset ref []) = Inl e \<longrightarrow>
      load_prefix_to_dataset c fuel bucket_name bucket_prefix ref table_name_prefix s =
        (Raised e, s\<lparr>jobs := [],
           trace := trace s @ [Call (Api_get_dataset ref), Call (Api_create_dataset (Dataset ref []))]\<rparr>))"
  by (simp add: ensure_dataset_def load_prefix_to_dataset_def new_dataset_def emit_def Let_def)

theorem dataset_get_or_create_witness:
  "ensure_dataset (example_client [] [] (\<lambda>f. (Some 0, None))) ''raw_orders'' init_state =
     (Inr (Dataset ''raw_orders'' []),
      \<lparr>trace = [Call (Api_get_dataset ''raw_orders''),
         Call (Api_create_dataset (Dataset ''raw_orders'' []))], jobs = [], clock = 0\<rparr>) \<and>
   load_prefix_to_dataset
     ((example_client [] [] (\<lambda>f. (Some 0, None)))\<lparr>get_dataset := \<lambda>ref. Inl (ApiError ''403 permission denied'')\<rparr>)
     3 ''b'' ''raw/orders'' ''raw_orders'' [] init_state =
     (Raised (ApiError ''403 permission denied''),
      \<lparr>trace = [Call (Api_get_dataset ''raw_orders'')], jobs = [], clock = 0\<rparr>)"
proof -
  let ?c = "example_client [] [] (\<lambda>f. (Some 0, None))"
  let ?d = "?c\<lparr>get_dataset := \<lambda>ref. Inl (ApiError ''403 permission denied'')\<rparr>"
  have h1: "get_dataset ?c ''raw_orders'' = Inl NotFound"
    by (simp add: example_client_def)
  have c1: "create_dataset ?c (Dataset ''raw_orders'' []) = Inr (Dataset ''raw_orders'' [])"
    by (simp add: example_client_def)
  have h2: "get_dataset ?d ''raw_orders'' = Inl (ApiError ''403 permission denied'') \<and>
      ApiError ''403 permission denied'' \<noteq> NotFound"
    by simp
  from dataset_get_or_create [of ?c "''raw_orders''" _ init_state] h1
  have "ensure_dataset ?c ''raw_orders'' init_state =
        (create_dataset ?c (Dataset ''raw_orders'' []),
         init_state\<lparr>trace := trace init_state @ [Call (Api_get_dataset ''raw_orders''),
           Call (Api_create_dataset (Dataset ''raw_orders'' []))]\<rparr>)"
    by blast
  then have 1: "ensure_dataset ?c ''raw_orders'' init_state =
     (Inr (Dataset ''raw_orders'' []),
      \<lparr>trace = [Call (Api_get_dataset ''raw_orders''),
         Call (Api_create_dataset (Dataset ''raw_orders'' []))], jobs = [], clock = 0\<rparr>)"
    unfolding c1 by (simp add: init_state_def)
  from dataset_get_or_create [of ?d "''raw_orders''" _ init_state "ApiError ''403 permission denied''"
      3 "''b''" "''raw/orders''" "[]"] h2
  have "load_prefix_to_dataset ?d 3 ''b'' ''raw/orders'' ''raw_orders'' [] init_state =
        (Raised (ApiError ''403 permission denied''),
         init_state\<lparr>jobs := [], trace := trace init_state @ [Call (Api_get_dataset ''raw_orders'')]\<rparr>)"
    by blast
  then have 2: "load_prefix_to_dataset ?d 3 ''b'' ''raw/orders'' ''raw_orders'' [] init_state =
     (Raised (ApiError ''403 permission denied''),
      \<lparr>trace = [Call (Api_get_dataset ''raw_orders'')], jobs = [], clock = 0\<rparr>)"
    by (simp add: init_state_def)
  from 1 2 show ?thesis by blast
qed

text \<open>
  Claim C8. For every sub-prefix the walker reaches (the prefixes before it were
  processed and returned), at any position of the list of discovered prefixes, the walker
  calls \<^verbatim>\<open>load_prefix_to_dataset\<close> with the prefix without its trailing slashes and with
  the dataset identifier made from it by replacing each character outside letters,
  digits and underscore by an underscore; the first thing that call does is to ask the
  warehouse for the dataset of that identifier, whatever the identifier's first character
  is, so no leading-letter check stands before it. \<^verbatim>\<open>rstrip\<close> removes the trailing
  slashes and nothing else. \<^verbatim>\<open>load_all_datasets\<close> walks the prefixes the delimiter
  listing reports. With objects \<^verbatim>\<open>raw/orders/2024.parquet\<close> and
  \<^verbatim>\<open>raw/orders/2025.parquet\<close> the listing of \<^verbatim>\<open>raw/\<close> reports the sub-prefix
  \<^verbatim>\<open>raw/orders/\<close>, whose dataset identifier is \<^verbatim>\<open>raw_orders\<close>.
\<close>

theorem dataset_identifier_derivation:
  assumes reach: "walk_prefixes c fuel bucket_name table_name_prefix pre s = (Returned, s1)"
  shows "walk_prefixes c fuel bucket_name table_name_prefix (pre @ prefix # post) s =
           (case load_prefix_to_dataset c fuel bucket_name (rstrip_slash prefix)
                   (re_sub_ident (rstrip_slash prefix)) table_name_prefix s1 of
              (Returned, s2) \<Rightarrow> walk_prefixes c fuel bucket_name table_name_prefix post s2
            | r \<Rightarrow> r) \<and>
         (\<exists>es. trace (snd (walk_prefixes c fuel bucket_name table_name_prefix
                   (pre @ prefix # post) s)) =
            trace s1 @ Call (Api_get_dataset (re_sub_ident (rstrip_slash prefix))) # es) \<and>
         (\<exists>k. prefix = rstrip_slash prefix @ replicate k CHR ''/'') \<and>
         (rstrip_slash prefix = [] \<or> last (rstrip_slash prefix) \<noteq> CHR ''/'') \<and>
         length (re_sub_ident (rstrip_slash prefix)) = length (rstrip_slash prefix) \<and>
         (\<forall>i < length (rstrip_slash prefix).
            re_sub_ident (rstrip_slash prefix) ! i =
              (if ident_char (rstrip_slash prefix ! i) then rstrip_slash prefix ! i
               else CHR ''_'')) \<and>
         (get_bucket c bucket_name = None \<and>
          list_blobs c bucket_name root (Some CHR ''/'') = Inr (names, prefixes) \<longrightarrow>
            load_all_datasets c fuel bucket_name root table_name_prefix s0 =
              walk_prefixes c fuel bucket_name table_name_prefix prefixes
                (s0\<lparr>trace := trace s0 @ [Call (Api_get_bucket bucket_name),
                   Call (Api_list_blobs bucket_name root (Some CHR ''/''))]\<rparr>)) \<and>
         store_listing [''raw/orders/2024.parquet'', ''raw/orders/2025.parquet''] ''raw/''
             (Some CHR ''/'') = ([], [''raw/orders/'']) \<and>
         rstrip_slash ''raw/orders/'' = ''raw/orders'' \<and>
         re_sub_ident (rstrip_slash ''raw/orders/'') = ''raw_orders''"
proof -
  have w: "walk_prefixes c fuel bucket_name table_name_prefix (pre @ prefix # post) s =
      walk_prefixes c fuel bucket_name table_name_prefix (prefix # post) s1"
    by (rule walk_prefixes_append [OF reach])
  have 1: "walk_prefixes c fuel bucket_name table_name_prefix (pre @ prefix # post) s =
           (case load_prefix_to_dataset c fuel bucket_name (rstrip_slash prefix)
                   (re_sub_ident (rstrip_slash prefix)) table_name_prefix s1 of
              (Returned, s2) \<Rightarrow> walk_prefixes c fuel bucket_name table_name_prefix post s2
            | r \<Rightarrow> r)"
    unfolding w by (simp add: Let_def)
  have 2: "\<exists>es. trace (snd (walk_prefixes c fuel bucket_name table_name_prefix
                   (pre @ prefix # post) s)) =
            trace s1 @ Call (Api_get_dataset (re_sub_ident (rstrip_slash prefix))) # es"
    unfolding w by (rule walk_prefixes_first_call)
  have 3: "\<exists>k. prefix = rstrip_slash prefix @ replicate k CHR ''/''"
    using rstrip_slash_split [of prefix] by blast
  have 4: "rstrip_slash prefix = [] \<or> last (rstrip_slash prefix) \<noteq> CHR ''/''"
    using rstrip_slash_last [of prefix] by blast
  have 5: "length (re_sub_ident (rstrip_slash prefix)) = length (rstrip_slash prefix)"
    by (rule length_re_sub_ident)
  have 6: "\<forall>i < length (rstrip_slash prefix).
            re_sub_ident (rstrip_slash prefix) ! i =
              (if ident_char (rstrip_slash prefix ! i) then rstrip_slash prefix ! i
               else CHR ''_'')"
    by (simp add: re_sub_ident_nth)
  have 7: "get_bucket c bucket_name = None \<and>
          list_blobs c bucket_name root (Some CHR ''/'') = Inr (names, prefixes) \<longrightarrow>
            load_all_datasets c fuel bucket_name root table_name_prefix s0 =
              walk_prefixes c fuel bucket_name table_name_prefix prefixes
                (s0\<lparr>trace := trace s0 @ [Call (Api_get_bucket bucket_name),
                   Call (Api_list_blobs bucket_name root (Some CHR ''/''))]\<rparr>)"
    by (simp add: load_all_datasets_def emit_def Let_def)
  have 8: "store_listing [''raw/orders/2024.parquet'', ''raw/orders/2025.parquet''] ''raw/''
             (Some CHR ''/'') = ([], [''raw/orders/''])"
    by (simp add: store_listing_def)
  have 9: "rstrip_slash ''raw/orders/'' = ''raw/orders''"
    by (simp add: rstrip_slash_def)
  have 10: "re_sub_ident (rstrip_slash ''raw/orders/'') = ''raw_orders''"
    unfolding 9 by (simp add: ident_char_def)
  from 1 2 3 4 5 6 7 8 9 10 show ?thesis by blast
qed

theorem dataset_identifier_derivation_witness:
  "load_all_datasets
     (example_client [''2024/q1.parquet'', ''orders/jan.parquet''] [] (\<lambda>f. (Some 0, None)))
     (Suc 0) ''b'' [] [] init_state =
     (Returned,
      \<lparr>trace =
         [Call (Api_get_bucket ''b''), Call (Api_list_blobs ''b'' [] (Some CHR ''/'')),
          Call (Api_get_dataset ''2024''), Call (Api_create_dataset (Dataset ''2024'' [])),
          Call (Api_list_tables ''2024''), Call (Api_get_bucket ''b''),
          Call (Api_list_blobs ''b'' ''2024'' None),
          Info (Processing_file ''gs://b/2024/q1.parquet''), Info (Table_name ''q1''),
          Call (Api_load_table_from_uri ''gs://b/2024/q1.parquet'' ''2024'' ''q1''),
          Info (Started_load_job ''gs://b/2024/q1.parquet'' ''2024'' ''q1''),
          Call (Api_done 0 True), Call (Api_result 0),
          Info (Completed_job 0 ''gs://b/2024/q1.parquet'' (''2024'', ''q1'')),
          Call (Api_get_dataset ''orders''), Call (Api_create_dataset (Dataset ''orders'' [])),
          Call (Api_list_tables ''orders''), Call (Api_get_bucket ''b''),
          Call (Api_list_blobs ''b'' ''orders'' None),
          Info (Processing_file ''gs://b/orders/jan.parquet''), Info (Table_name ''jan''),
          Call (Api_load_table_from_uri ''gs://b/orders/jan.parquet'' ''orders'' ''jan''),
          Info (Started_load_job ''gs://b/orders/jan.parquet'' ''orders'' ''jan''),
          Call (Api_done 0 True), Call (Api_result 0),
          Info (Completed_job 0 ''gs://b/orders/jan.parquet'' (''orders'', ''jan''))],
       jobs = [], clock = 2\<rparr>)"
proof -
  let ?c = "example_client [''2024/q1.parquet'', ''orders/jan.parquet''] [] (\<lambda>f. (Some 0, None))"
  let ?s0 = "init_state\<lparr>trace := trace init_state @ [Call (Api_get_bucket ''b''),
      Call (Api_list_blobs ''b'' [] (Some CHR ''/''))]\<rparr>"
  let ?s1 = "\<lparr>trace =
         [Call (Api_get_bucket ''b''), Call (Api_list_blobs ''b'' [] (Some CHR ''/'')),
          Call (Api_get_dataset ''2024''), Call (Api_create_dataset (Dataset ''2024'' [])),
          Call (Api_list_tables ''2024''), Call (Api_get_bucket ''b''),
          Call (Api_list_blobs ''b'' ''2024'' None),
          Info (Processing_file ''gs://b/2024/q1.parquet''), Info (Table_name ''q1''),
          Call (Api_load_table_from_uri ''gs://b/2024/q1.parquet'' ''2024'' ''q1''),
          Info (Started_load_job ''gs://b/2024/q1.parquet'' ''2024'' ''q1''),
          Call (Api_done 0 True), Call (Api_result 0),
          Info (Completed_job 0 ''gs://b/2024/q1.parquet'' (''2024'', ''q1''))],
       jobs = [], clock = 1\<rparr>"
  have b1: "re_sub_ident (fst (splitext (basename ''gs://b/2024/q1.parquet''))) = ''q1''"
    by (simp add: base_defs ident_char_def)
  have b2: "re_sub_ident (fst (splitext (basename ''gs://b/orders/jan.parquet''))) = ''jan''"
    by (simp add: base_defs ident_char_def)
  have reach: "walk_prefixes ?c (Suc 0) ''b'' [] [''2024/''] ?s0 = (Returned, ?s1)"
    by (simp add: run_defs b1 char_defs init_state_def emit_def poll_defs)
  have listing: "get_bucket ?c ''b'' = None \<and>
      list_blobs ?c ''b'' [] (Some CHR ''/'') = Inr ([], [''2024/'', ''orders/''])"
    by (simp add: example_client_def store_listing_def)
  from dataset_identifier_derivation [OF reach, of "''orders/''" "[]" "[]" "[]"
      "[''2024/'', ''orders/'']" init_state] listing
  have whole: "load_all_datasets ?c (Suc 0) ''b'' [] [] init_state =
      walk_prefixes ?c (Suc 0) ''b'' [] [''2024/'', ''orders/''] ?s0"
    and step: "walk_prefixes ?c (Suc 0) ''b'' [] ([''2024/''] @ ''orders/'' # []) ?s0 =
      (case load_prefix_to_dataset ?c (Suc 0) ''b'' (rstrip_slash ''orders/'')
              (re_sub_ident (rstrip_slash ''orders/'')) [] ?s1 of
         (Returned, s2) \<Rightarrow> walk_prefixes ?c (Suc 0) ''b'' [] [] s2
       | r \<Rightarrow> r)"
    by blast+
  have "load_all_datasets ?c (Suc 0) ''b'' [] [] init_state =
      (case load_prefix_to_dataset ?c (Suc 0) ''b'' (rstrip_slash ''orders/'')
              (re_sub_ident (rstrip_slash ''orders/'')) [] ?s1 of
         (Returned, s2) \<Rightarrow> walk_prefixes ?c (Suc 0) ''b'' [] [] s2
       | r \<Rightarrow> r)"
    using whole step by simp
  then show ?thesis
    by (simp add: run_defs b2 char_defs emit_def poll_defs)
qed

text \<open>
  Claim C2, at a job that finished with an error payload. \<^verbatim>\<open>load_job.result()\<close> raises
  for such a job, so the scan that sees it reporting completion does not shorten the list:
  the handle stays in the list, the error lines of lines 113 to 116 are not written and
  the exception leaves the \<^verbatim>\<open>while\<close> loop. In \<open>three_jobs\<close> this happens in the fourth
  iteration, after the two other jobs were completed and removed; in
  \<open>failed_and_stuck\<close> the loop is left in its first iteration although the second job
  never reports completion.
\<close>

theorem failed_job_leaves_poll_loop:
  "poll_loop 4 three_jobs =
     (Raised (JobError ''malformed source''),
      \<lparr>trace =
         [Call (Api_done 0 True), Call (Api_result 0),
          Info (Completed_job 0 ''gs://b/p/a.parquet'' (''p'', ''a'')),
          Call (Api_done 2 False), Call (Api_done 1 True), Call (Api_result 1),
          Info (Completed_job 1 ''gs://b/p/b.parquet'' (''p'', ''b'')),
          Call (Api_done 2 False), Call (Api_done 2 True), Call (Api_result 2)],
       jobs = [\<lparr>job_id = 2, source_uri = ''gs://b/p/c.parquet'', destination = (''p'', ''c''),
                 done_from = Some 4, error_result = Some ''malformed source''\<rparr>],
       clock = 5\<rparr>) \<and>
   poll_loop 1 failed_and_stuck =
     (Raised (JobError ''malformed source''),
      \<lparr>trace = [Call (Api_done 0 True), Call (Api_result 0)],
       jobs = [\<lparr>job_id = 0, source_uri = ''gs://b/p/c.parquet'', destination = (''p'', ''c''),
                 done_from = Some 0, error_result = Some ''malformed source''\<rparr>,
               \<lparr>job_id = 1, source_uri = ''gs://b/p/d.parquet'', destination = (''p'', ''d''),
                 done_from = None, error_result = None\<rparr>],
       clock = 1\<rparr>)"
proof -
  have s1: "poll_scan 0 three_jobs =
      (None,
       \<lparr>trace =
        [Call (Api_done 0 True), Call (Api_result 0),
         Info (Completed_job 0 ''gs://b/p/a.parquet'' (''p'', ''a'')),
         Call (Api_done 2 False)],
       jobs =
         [\<lparr>job_id = 1, source_uri = ''gs://b/p/b.parquet'', destination = (''p'', ''b''),
            done_from = Some 0, error_result = None\<rparr>,
          \<lparr>job_id = 2, source_uri = ''gs://b/p/c.parquet'', destination = (''p'', ''c''),
            done_from = Some 4, error_result = Some ''malformed source''\<rparr>],
       clock = 2\<rparr>)"
    by (simp add: three_jobs_def poll_defs)
  have 1: "poll_loop 4 three_jobs =
     (Raised (JobError ''malformed source''),
      \<lparr>trace =
         [Call (Api_done 0 True), Call (Api_result 0),
          Info (Completed_job 0 ''gs://b/p/a.parquet'' (''p'', ''a'')),
          Call (Api_done 2 False), Call (Api_done 1 True), Call (Api_result 1),
          Info (Completed_job 1 ''gs://b/p/b.parquet'' (''p'', ''b'')),
          Call (Api_done 2 False), Call (Api_done 2 True), Call (Api_result 2)],
       jobs = [\<lparr>job_id = 2, source_uri = ''gs://b/p/c.parquet'', destination = (''p'', ''c''),
                 done_from = Some 4, error_result = Some ''malformed source''\<rparr>],
       clock = 5\<rparr>)"
    by (simp add: numeral_eq_Suc s1) (simp add: poll_defs)
  have 2: "poll_loop 1 failed_and_stuck =
     (Raised (JobError ''malformed source''),
      \<lparr>trace = [Call (Api_done 0 True), Call (Api_result 0)],
       jobs = [\<lparr>job_id = 0, source_uri = ''gs://b/p/c.parquet'', destination = (''p'', ''c''),
                 done_from = Some 0, error_result = Some ''malformed source''\<rparr>,
               \<lparr>job_id = 1, source_uri = ''gs://b/p/d.parquet'', destination = (''p'', ''d''),
                 done_from = None, error_result = None\<rparr>],
       clock = 1\<rparr>)"
    by (simp add: failed_and_stuck_def poll_defs)
  from 1 2 show ?thesis by blast
qed

end
